theory Spec2Isabelle
  imports Main "HOL-Library.AList" "HOL-Library.Multiset" "HOL-Library.Sublist" "HOL-Library.Word"
begin

section \<open>Data model\<close>

text \<open>
  A Python \<open>str\<close> is a sequence of Unicode code points; it is modelled as a list of
  natural numbers, so that \<open>length\<close> counts what Python's \<open>len\<close> counts. Bit strings
  are Python strings over the two characters \<open>0\<close> (48) and \<open>1\<close> (49). A Python
  \<open>bytes\<close> object is a list of 8-bit words.
\<close>

type_synonym ustr = "nat list"
type_synonym byte = "8 word"

definition ascii :: "string \<Rightarrow> ustr" where
  "ascii s = map of_char s"

text \<open>The exceptions the program can raise, as values.\<close>

datatype error = IndexError | KeyError | ValueError | OverflowError | TypeError | RecursionError

text \<open>
  A Python \<open>dict\<close> keeps its keys in insertion order; assigning to an existing key
  replaces the value in place, assigning to a new key appends. This is
  \<open>AList.update\<close> on an association list, with \<open>map_of\<close> for the lookup.
\<close>

type_synonym ('k, 'v) dict = "('k \<times> 'v) list"

text \<open>
  \<open>class TreeNode\<close>: \<open>freq\<close>, \<open>char\<close> (\<open>None\<close> for a merged node), and the two
  links \<open>left\<close> and \<open>right\<close>, which are \<open>None\<close> until they are assigned.
\<close>

datatype tree_node =
  TreeNode (freq: nat) (char: "nat option") (left: "tree_node option") (right: "tree_node option")

section \<open>Frequency analysis\<close>

text \<open>\<open>build_frequency\<close>: one pass over the text, counting into a dict.\<close>

definition build_frequency_step :: "nat \<Rightarrow> (nat, nat) dict \<Rightarrow> (nat, nat) dict" where
  "build_frequency_step character frequency =
     (case map_of frequency character of
        Some n \<Rightarrow> AList.update character (n + 1) frequency
      | None \<Rightarrow> AList.update character 1 frequency)"

definition build_frequency :: "ustr \<Rightarrow> (nat, nat) dict" where
  "build_frequency text = fold build_frequency_step text []"

text \<open>
  \<open>sorted(frequency.items(), key=lambda kv: kv[1], reverse=True)\<close>. Python's sort is
  stable, and with \<open>reverse=True\<close> it reverses the list, sorts it ascending and
  reverses the result, so that items with equal keys keep their original order.
  \<open>sort_key\<close> is a stable insertion sort.
\<close>

definition sorted_reverse :: "(nat \<times> nat) list \<Rightarrow> (nat \<times> nat) list" where
  "sorted_reverse items = rev (sort_key snd (rev items))"

text \<open>The loop of \<open>compress\<close> that wraps every item of the sorted dict as a leaf.\<close>

definition make_stack :: "(nat, nat) dict \<Rightarrow> tree_node list" where
  "make_stack frequency = map (\<lambda>(key, val). TreeNode val (Some key) None None) frequency"

section \<open>Tree construction\<close>

text \<open>
  \<open>build_huffman_tree\<close>: while more than one node is on the stack, pop the last two
  nodes, merge them, and insert the merged node at position 0.
\<close>

function build_huffman_tree :: "tree_node list \<Rightarrow> tree_node list" where
  "build_huffman_tree stack =
     (if length stack > 1 then
        let node_1 = last stack;
            stack1 = butlast stack;
            node_2 = last stack1;
            stack2 = butlast stack1;
            frequency = freq node_1 + freq node_2;
            merged = TreeNode frequency None (Some node_1) (Some node_2)
        in build_huffman_tree (merged # stack2)
      else stack)"
  by pat_completeness auto
termination
  by (relation "measure length") auto

declare build_huffman_tree.simps [simp del]

section \<open>Code assignment\<close>

text \<open>
  \<open>class Mapping\<close>: the two dicts are the state that \<open>map\<close> updates; the model passes
  the pair through the traversal and returns it.
\<close>

type_synonym dicts = "(nat, ustr) dict \<times> (ustr, nat) dict"

fun map_node :: "tree_node option \<Rightarrow> ustr \<Rightarrow> dicts \<Rightarrow> dicts" where
  "map_node None bit_code ds = ds"
| "map_node (Some (TreeNode f (Some c) l r)) bit_code ds =
     (AList.update c bit_code (fst ds), AList.update bit_code c (snd ds))"
| "map_node (Some (TreeNode f None l r)) bit_code ds =
     map_node r (bit_code @ ascii ''1'') (map_node l (bit_code @ ascii ''0'') ds)"

text \<open>\<open>create_mapping\<close>: \<open>self.tree.pop()\<close> raises \<open>IndexError\<close> on an empty list.\<close>

definition create_mapping :: "tree_node list \<Rightarrow> error + dicts" where
  "create_mapping tree =
     (if tree = [] then Inl IndexError
      else Inr (map_node (Some (last tree)) [] ([], [])))"

section \<open>Stream encoding\<close>

text \<open>\<open>encode_text\<close>: \<open>mapping_dict[character]\<close> raises \<open>KeyError\<close> on a missing key.\<close>

fun encode_text :: "ustr \<Rightarrow> (nat, ustr) dict \<Rightarrow> error + ustr" where
  "encode_text [] mapping_dict = Inr []"
| "encode_text (character # text) mapping_dict =
     (case map_of mapping_dict character of
        None \<Rightarrow> Inl KeyError
      | Some code \<Rightarrow>
          (case encode_text text mapping_dict of
             Inl e \<Rightarrow> Inl e
           | Inr encoded \<Rightarrow> Inr (code @ encoded)))"

text \<open>
  Binary formatting, \<open>'{0:016b}'.format(n)\<close> and \<open>'{0:08b}'.format(n)\<close>: the binary
  digits of \<open>n\<close>, padded with zeros on the left to the width; a number that needs
  more digits than the width is written in full.
\<close>

fun bin_digits :: "nat \<Rightarrow> ustr" where
  "bin_digits n = (if n < 2 then [48 + n] else bin_digits (n div 2) @ [48 + n mod 2])"

declare bin_digits.simps [simp del]

definition format_bin :: "nat \<Rightarrow> nat \<Rightarrow> ustr" where
  "format_bin width n = replicate (width - length (bin_digits n)) 48 @ bin_digits n"

text \<open>
  \<open>json.dumps\<close> of a dict from strings to strings, with the library's defaults
  (\<open>ensure_ascii=True\<close>, separators \<open>", "\<close> and \<open>": "\<close>). A string is written
  between double quotes; the quote, the backslash and the control characters with a
  short form are escaped with a backslash, every other character outside the range
  from the space to the tilde is written \<open>\uXXXX\<close> with four lower-case hexadecimal
  digits, a character beyond the basic plane as a surrogate pair of two such
  escapes. (The library computes the surrogates with shifts and masks; on ten-bit
  fields these are the quotient and remainder below.)
\<close>

definition hex_digit :: "nat \<Rightarrow> nat" where
  "hex_digit d = (if d < 10 then 48 + d else 87 + d)"

definition hex4 :: "nat \<Rightarrow> ustr" where
  "hex4 n = [hex_digit (n div 4096 mod 16), hex_digit (n div 256 mod 16),
             hex_digit (n div 16 mod 16), hex_digit (n mod 16)]"

definition json_escape_char :: "nat \<Rightarrow> ustr" where
  "json_escape_char c =
     (if c = 34 then ascii [CHR 0x5C, CHR 0x22]
      else if c = 92 then ascii [CHR 0x5C, CHR 0x5C]
      else if c = 8 then ascii [CHR 0x5C, CHR ''b'']
      else if c = 12 then ascii [CHR 0x5C, CHR ''f'']
      else if c = 10 then ascii [CHR 0x5C, CHR ''n'']
      else if c = 13 then ascii [CHR 0x5C, CHR ''r'']
      else if c = 9 then ascii [CHR 0x5C, CHR ''t'']
      else if 32 \<le> c \<and> c \<le> 126 then [c]
      else if c < 65536 then ascii [CHR 0x5C, CHR ''u''] @ hex4 c
      else let n = c - 65536;
               s1 = 55296 + (n div 1024) mod 1024;
               s2 = 56320 + n mod 1024
           in ascii [CHR 0x5C, CHR ''u''] @ hex4 s1 @ ascii [CHR 0x5C, CHR ''u''] @ hex4 s2)"

definition json_string :: "ustr \<Rightarrow> ustr" where
  "json_string s = [34] @ concat (map json_escape_char s) @ [34]"

definition json_item :: "ustr \<times> nat \<Rightarrow> ustr" where
  "json_item kv = json_string (fst kv) @ ascii '': '' @ json_string [snd kv]"

fun json_items :: "(ustr \<times> nat) list \<Rightarrow> ustr" where
  "json_items [] = []"
| "json_items [kv] = json_item kv"
| "json_items (kv # kvs) = json_item kv @ ascii '', '' @ json_items kvs"

definition json_dumps :: "(ustr, nat) dict \<Rightarrow> ustr" where
  "json_dumps d = ascii ''{'' @ json_items d @ ascii ''}''"

text \<open>
  \<open>str.encode('utf-8')\<close>: one to four bytes per code point; a surrogate cannot be
  encoded (\<open>UnicodeEncodeError\<close>, a \<open>ValueError\<close>).
\<close>

definition utf8_encode_char :: "nat \<Rightarrow> error + byte list" where
  "utf8_encode_char c =
     (if c < 128 then Inr [of_nat c]
      else if c < 2048 then Inr [of_nat (192 + c div 64), of_nat (128 + c mod 64)]
      else if 55296 \<le> c \<and> c \<le> 57343 then Inl ValueError
      else if c < 65536 then
        Inr [of_nat (224 + c div 4096), of_nat (128 + c div 64 mod 64), of_nat (128 + c mod 64)]
      else
        Inr [of_nat (240 + c div 262144), of_nat (128 + c div 4096 mod 64),
             of_nat (128 + c div 64 mod 64), of_nat (128 + c mod 64)])"

fun utf8_encode :: "ustr \<Rightarrow> error + byte list" where
  "utf8_encode [] = Inr []"
| "utf8_encode (c # s) =
     (case utf8_encode_char c of
        Inl e \<Rightarrow> Inl e
      | Inr bs \<Rightarrow> (case utf8_encode s of Inl e \<Rightarrow> Inl e | Inr bs' \<Rightarrow> Inr (bs @ bs')))"

text \<open>\<open>BitArray(res_bytes).bin\<close>: eight binary digits per byte, the high bit first.\<close>

definition bytes_bin :: "byte list \<Rightarrow> ustr" where
  "bytes_bin bs = concat (map (\<lambda>b. format_bin 8 (unat b)) bs)"

definition encode_mapping :: "(ustr, nat) dict \<Rightarrow> error + ustr" where
  "encode_mapping reverse_mapping_dict =
     (case utf8_encode (json_dumps reverse_mapping_dict) of
        Inl e \<Rightarrow> Inl e
      | Inr res_bytes \<Rightarrow> Inr (bytes_bin res_bytes))"

definition encode_text_tree :: "ustr \<Rightarrow> ustr \<Rightarrow> ustr" where
  "encode_text_tree encoded_text encoded_tree =
     (let extra_bits = length encoded_tree;
          tree_info = format_bin 16 extra_bits
      in tree_info @ encoded_text @ encoded_tree)"

definition pad_encoded_text_tree :: "ustr \<Rightarrow> ustr" where
  "pad_encoded_text_tree encoded_text_tree =
     (let padding = 8 - (length encoded_text_tree mod 8);
          padded = encoded_text_tree @ replicate padding 48;
          padding_info = format_bin 8 padding
      in padding_info @ padded)"

text \<open>
  The value of a string of binary digits, and \<open>BitArray(bin = s).tofile(output)\<close>:
  the bits are written eight to a byte, the high bit first; a last group of fewer
  than eight bits is filled with zero bits on the right.
\<close>

definition bin_value :: "ustr \<Rightarrow> nat" where
  "bin_value s = foldl (\<lambda>a c. 2 * a + (c - 48)) 0 s"

function bits_tobytes :: "ustr \<Rightarrow> byte list" where
  "bits_tobytes s =
     (if s = [] then []
      else of_nat (bin_value (take 8 s @ replicate (8 - length (take 8 s)) 48))
           # bits_tobytes (drop 8 s))"
  by pat_completeness auto
termination
  by (relation "measure length") auto

declare bits_tobytes.simps [simp del]

text \<open>
  \<open>str.rstrip()\<close> removes the trailing characters for which \<open>str.isspace\<close> holds.
\<close>

definition py_isspace :: "nat \<Rightarrow> bool" where
  "py_isspace c \<longleftrightarrow>
     (9 \<le> c \<and> c \<le> 13) \<or> (28 \<le> c \<and> c \<le> 32) \<or> c = 133 \<or> c = 160 \<or> c = 5760 \<or>
     (8192 \<le> c \<and> c \<le> 8202) \<or> c = 8232 \<or> c = 8233 \<or> c = 8239 \<or> c = 8287 \<or> c = 12288"

definition rstrip :: "ustr \<Rightarrow> ustr" where
  "rstrip text = rev (dropWhile py_isspace (rev text))"

text \<open>
  The body of \<open>compress\<close> from line 106 on: the pipeline applied to the stripped
  text. The result is the bit string handed to \<open>BitArray\<close>.
\<close>

definition compress_bits :: "ustr \<Rightarrow> error + ustr" where
  "compress_bits text =
     (let frequency = build_frequency text;
          frequency = sorted_reverse frequency;
          stack = make_stack frequency;
          huffman_tree = build_huffman_tree stack
      in case create_mapping huffman_tree of
           Inl e \<Rightarrow> Inl e
         | Inr (mapping_dict, reverse_mapping_dict) \<Rightarrow>
             (case encode_text text mapping_dict of
                Inl e \<Rightarrow> Inl e
              | Inr encoded_text \<Rightarrow>
                  (case encode_mapping reverse_mapping_dict of
                     Inl e \<Rightarrow> Inl e
                   | Inr encoded_tree \<Rightarrow>
                       Inr (pad_encoded_text_tree (encode_text_tree encoded_text encoded_tree)))))"

text \<open>
  \<open>compress\<close>, from the text read from the file to the bytes written to the output
  file.
\<close>

definition compress :: "ustr \<Rightarrow> error + byte list" where
  "compress file_text =
     (let text = rstrip file_text
      in case compress_bits text of
           Inl e \<Rightarrow> Inl e
         | Inr padded_encoded_text_tree \<Rightarrow> Inr (bits_tobytes padded_encoded_text_tree))"

section \<open>Stream decoding\<close>

text \<open>
  \<open>int(s, 2)\<close> on a bit string: the value of the digits; the empty string is not a
  number (\<open>ValueError\<close>). The strings the program passes are slices of
  \<open>BitArray(...).bin\<close> and hold binary digits only.
\<close>

definition py_int2 :: "ustr \<Rightarrow> error + nat" where
  "py_int2 s =
     (if s = [] \<or> (\<exists>c \<in> set s. c \<noteq> 48 \<and> c \<noteq> 49) then Inl ValueError
      else Inr (bin_value s))"

text \<open>
  The two slices with a negated bound. \<open>s[:-n]\<close> drops the last \<open>n\<close> characters, but
  \<open>s[:-0]\<close> is \<open>s[:0]\<close>, the empty string. \<open>s[-n:]\<close> keeps the last \<open>n\<close> characters,
  but \<open>s[-0:]\<close> is \<open>s[0:]\<close>, the whole string.
\<close>

definition slice_to_neg :: "ustr \<Rightarrow> nat \<Rightarrow> ustr" where
  "slice_to_neg s n = (if n = 0 then [] else take (length s - n) s)"

definition slice_from_neg :: "ustr \<Rightarrow> nat \<Rightarrow> ustr" where
  "slice_from_neg s n = (if n = 0 then s else drop (length s - n) s)"

definition remove_padding_bits :: "ustr \<Rightarrow> error + ustr" where
  "remove_padding_bits bit_string =
     (let padding_info = take 8 bit_string
      in case py_int2 padding_info of
           Inl e \<Rightarrow> Inl e
         | Inr padding_bits \<Rightarrow>
             (let bit_string = drop 8 bit_string;
                  bit_string = slice_to_neg bit_string padding_bits
              in Inr bit_string))"

definition get_encoded_text_mapping :: "ustr \<Rightarrow> error + ustr \<times> ustr" where
  "get_encoded_text_mapping bit_string =
     (let tree_info = take 16 bit_string
      in case py_int2 tree_info of
           Inl e \<Rightarrow> Inl e
         | Inr encoded_tree_bits \<Rightarrow>
             (let bit_string = drop 16 bit_string;
                  encoded_tree = slice_from_neg bit_string encoded_tree_bits;
                  bit_string = slice_to_neg bit_string encoded_tree_bits
              in Inr (bit_string, encoded_tree)))"

text \<open>
  \<open>int.to_bytes(length, byteorder='big')\<close>: \<open>OverflowError\<close> when the number does
  not fit into \<open>length\<close> bytes.
\<close>

fun bytes_be :: "nat \<Rightarrow> nat \<Rightarrow> byte list" where
  "bytes_be 0 n = []"
| "bytes_be (Suc k) n = bytes_be k (n div 256) @ [of_nat (n mod 256)]"

definition to_bytes :: "nat \<Rightarrow> nat \<Rightarrow> error + byte list" where
  "to_bytes n len = (if n < 256 ^ len then Inr (bytes_be len n) else Inl OverflowError)"

text \<open>
  \<open>bytes.decode('utf-8')\<close>, strict: a byte sequence that is not well-formed UTF-8
  (a stray continuation byte, a truncated or overlong sequence, an encoded
  surrogate, a value above \<open>0x10FFFF\<close>) raises \<open>UnicodeDecodeError\<close>, a
  \<open>ValueError\<close>.
\<close>

definition is_cont :: "nat \<Rightarrow> bool" where
  "is_cont b \<longleftrightarrow> 128 \<le> b \<and> b \<le> 191"

fun utf8_decode_nat :: "nat list \<Rightarrow> error + ustr" where
  "utf8_decode_nat [] = Inr []"
| "utf8_decode_nat (b0 # bs) =
     (if b0 < 128 then
        (case utf8_decode_nat bs of Inl e \<Rightarrow> Inl e | Inr s \<Rightarrow> Inr (b0 # s))
      else if 194 \<le> b0 \<and> b0 \<le> 223 then
        (case bs of
           b1 # bs1 \<Rightarrow>
             if is_cont b1 then
               (case utf8_decode_nat bs1 of Inl e \<Rightarrow> Inl e
                | Inr s \<Rightarrow> Inr (((b0 - 192) * 64 + (b1 - 128)) # s))
             else Inl ValueError
         | _ \<Rightarrow> Inl ValueError)
      else if 224 \<le> b0 \<and> b0 \<le> 239 then
        (case bs of
           b1 # b2 # bs2 \<Rightarrow>
             if is_cont b1 \<and> is_cont b2 \<and> (b0 = 224 \<longrightarrow> 160 \<le> b1) \<and> (b0 = 237 \<longrightarrow> b1 \<le> 159) then
               (case utf8_decode_nat bs2 of Inl e \<Rightarrow> Inl e
                | Inr s \<Rightarrow> Inr (((b0 - 224) * 4096 + (b1 - 128) * 64 + (b2 - 128)) # s))
             else Inl ValueError
         | _ \<Rightarrow> Inl ValueError)
      else if 240 \<le> b0 \<and> b0 \<le> 244 then
        (case bs of
           b1 # b2 # b3 # bs3 \<Rightarrow>
             if is_cont b1 \<and> is_cont b2 \<and> is_cont b3 \<and> (b0 = 240 \<longrightarrow> 144 \<le> b1)
                \<and> (b0 = 244 \<longrightarrow> b1 \<le> 143) then
               (case utf8_decode_nat bs3 of Inl e \<Rightarrow> Inl e
                | Inr s \<Rightarrow>
                    Inr (((b0 - 240) * 262144 + (b1 - 128) * 4096 + (b2 - 128) * 64 + (b3 - 128)) # s))
             else Inl ValueError
         | _ \<Rightarrow> Inl ValueError)
      else Inl ValueError)"

definition utf8_decode :: "byte list \<Rightarrow> error + ustr" where
  "utf8_decode bs = utf8_decode_nat (map unat bs)"

text \<open>
  \<open>json.loads\<close>. The values of JSON; a number is kept as the text of its literal
  (the program never computes with one).
\<close>

datatype json =
  JObject "(ustr \<times> json) list"
| JArray "json list"
| JString ustr
| JNumber ustr
| JBool bool
| JNull

definition is_ws :: "nat \<Rightarrow> bool" where
  "is_ws c \<longleftrightarrow> c = 32 \<or> c = 9 \<or> c = 10 \<or> c = 13"

definition skip_ws :: "ustr \<Rightarrow> ustr" where
  "skip_ws s = dropWhile is_ws s"

definition hex_value :: "nat \<Rightarrow> nat option" where
  "hex_value c =
     (if 48 \<le> c \<and> c \<le> 57 then Some (c - 48)
      else if 97 \<le> c \<and> c \<le> 102 then Some (c - 87)
      else if 65 \<le> c \<and> c \<le> 70 then Some (c - 55)
      else None)"

text \<open>The four hexadecimal digits of a \<open>\uXXXX\<close> escape.\<close>

definition decode_uXXXX :: "ustr \<Rightarrow> nat option" where
  "decode_uXXXX s =
     (case map hex_value (take 4 s) of
        [Some a, Some b, Some c, Some d] \<Rightarrow> Some (a * 4096 + b * 256 + c * 16 + d)
      | _ \<Rightarrow> None)"

text \<open>The characters that may follow a backslash, other than \<open>u\<close>.\<close>

definition backslash :: "nat \<Rightarrow> nat option" where
  "backslash esc =
     (if esc = 34 then Some 34
      else if esc = 92 then Some 92
      else if esc = 47 then Some 47
      else if esc = 98 then Some 8
      else if esc = 102 then Some 12
      else if esc = 110 then Some 10
      else if esc = 114 then Some 13
      else if esc = 116 then Some 9
      else None)"

definition cons_char :: "nat \<Rightarrow> error + ustr \<times> ustr \<Rightarrow> error + ustr \<times> ustr" where
  "cons_char c r = (case r of Inl e \<Rightarrow> Inl e | Inr (str, rest) \<Rightarrow> Inr (c # str, rest))"

text \<open>
  \<open>scanstring\<close>, from the character after the opening quote: the string and the
  text after the closing quote. A control character inside the string is an error
  (\<open>strict\<close> is the default); a high surrogate escape followed by a low surrogate
  escape is one character.
\<close>

function scanstring :: "ustr \<Rightarrow> error + ustr \<times> ustr" where
  "scanstring [] = Inl ValueError"
| "scanstring (c # s) =
     (if c = 34 then Inr ([], s)
      else if c = 92 then
        (case s of
           [] \<Rightarrow> Inl ValueError
         | esc # s1 \<Rightarrow>
             if esc \<noteq> 117 then
               (case backslash esc of
                  None \<Rightarrow> Inl ValueError
                | Some ch \<Rightarrow> cons_char ch (scanstring s1))
             else
               (case decode_uXXXX s1 of
                  None \<Rightarrow> Inl ValueError
                | Some uni \<Rightarrow>
                    if 55296 \<le> uni \<and> uni \<le> 56319 \<and> take 2 (drop 4 s1) = [92, 117] then
                      (case decode_uXXXX (drop 6 s1) of
                         None \<Rightarrow> Inl ValueError
                       | Some uni2 \<Rightarrow>
                           if 56320 \<le> uni2 \<and> uni2 \<le> 57343 then
                             cons_char (65536 + ((uni - 55296) * 1024 + (uni2 - 56320)))
                               (scanstring (drop 10 s1))
                           else cons_char uni (scanstring (drop 4 s1)))
                    else cons_char uni (scanstring (drop 4 s1))))
      else if c < 32 then Inl ValueError
      else cons_char c (scanstring s))"
  by pat_completeness auto
termination
  by (relation "measure length") auto

declare scanstring.simps [simp del]

text \<open>
  The number pattern
  \<open>(-?(?:0|[1-9][0-9]*))(\.[0-9]+)?([eE][-+]?[0-9]+)?\<close>: the literal matched at
  the start of the text and the text after it.
\<close>

definition is_digit :: "nat \<Rightarrow> bool" where
  "is_digit c \<longleftrightarrow> 48 \<le> c \<and> c \<le> 57"

definition match_frac :: "ustr \<Rightarrow> ustr \<times> ustr" where
  "match_frac s =
     (case s of
        c # r \<Rightarrow>
          if c = 46 \<and> takeWhile is_digit r \<noteq> [] then (c # takeWhile is_digit r, dropWhile is_digit r)
          else ([], s)
      | [] \<Rightarrow> ([], s))"

definition match_exp :: "ustr \<Rightarrow> ustr \<times> ustr" where
  "match_exp s =
     (case s of
        c # r \<Rightarrow>
          if c = 101 \<or> c = 69 then
            (let sgn = (case r of d # r1 \<Rightarrow> if d = 45 \<or> d = 43 then [d] else [] | [] \<Rightarrow> []);
                 r2 = drop (length sgn) r
             in if takeWhile is_digit r2 \<noteq> []
                then (c # sgn @ takeWhile is_digit r2, dropWhile is_digit r2)
                else ([], s))
          else ([], s)
      | [] \<Rightarrow> ([], s))"

definition match_number :: "ustr \<Rightarrow> (ustr \<times> ustr) option" where
  "match_number s =
     (let sgn = (case s of c # r \<Rightarrow> if c = 45 then [c] else [] | [] \<Rightarrow> []);
          s1 = drop (length sgn) s
      in case s1 of
           [] \<Rightarrow> None
         | c # r \<Rightarrow>
             if is_digit c then
               (let ip = (if c = 48 then [c] else c # takeWhile is_digit r);
                    r1 = (if c = 48 then r else dropWhile is_digit r);
                    (frac, r2) = match_frac r1;
                    (ex, r3) = match_exp r2
                in Some (sgn @ ip @ frac @ ex, r3))
             else None)"

text \<open>
  A dict built from the pairs of an object, in order: a repeated key keeps its first
  position and takes its last value.
\<close>

definition dict_of_pairs :: "('k \<times> 'v) list \<Rightarrow> ('k, 'v) dict" where
  "dict_of_pairs pairs = fold (\<lambda>kv d. AList.update (fst kv) (snd kv) d) pairs []"

text \<open>
  The scanner: \<open>scan_once\<close> reads one value at the start of the text, \<open>JSONObject\<close>
  the pairs of an object from the first key on, \<open>JSONArray\<close> the elements of an
  array. The first argument bounds the depth of the calls that are still allowed: each
  call passes one less to the calls it makes. A value, an element or a pair takes at
  least one character and at most two nested calls, so \<open>json_loads\<close> starts with
  twice the length of the text plus two. Running out is reported as
  \<open>RecursionError\<close>.
\<close>

fun scan_once :: "nat \<Rightarrow> ustr \<Rightarrow> error + json \<times> ustr"
  and JSONObject :: "nat \<Rightarrow> ustr \<Rightarrow> (ustr \<times> json) list \<Rightarrow> error + json \<times> ustr"
  and JSONArray :: "nat \<Rightarrow> ustr \<Rightarrow> json list \<Rightarrow> error + json \<times> ustr" where
  "scan_once 0 s = Inl RecursionError"
| "scan_once (Suc k) [] = Inl ValueError"
| "scan_once (Suc k) (nextchar # s) =
     (if nextchar = 34 then
        (case scanstring s of Inl e \<Rightarrow> Inl e | Inr (str, rest) \<Rightarrow> Inr (JString str, rest))
      else if nextchar = 123 then
        (case skip_ws s of
           c # r \<Rightarrow>
             if c = 125 then Inr (JObject [], r)
             else if c = 34 then JSONObject k r []
             else Inl ValueError
         | [] \<Rightarrow> Inl ValueError)
      else if nextchar = 91 then
        (case skip_ws s of
           c # r \<Rightarrow> if c = 93 then Inr (JArray [], r) else JSONArray k (c # r) []
         | [] \<Rightarrow> Inl ValueError)
      else if take 4 (nextchar # s) = ascii ''null'' then Inr (JNull, drop 3 s)
      else if take 4 (nextchar # s) = ascii ''true'' then Inr (JBool True, drop 3 s)
      else if take 5 (nextchar # s) = ascii ''false'' then Inr (JBool False, drop 4 s)
      else
        (case match_number (nextchar # s) of
           Some (lit, rest) \<Rightarrow> Inr (JNumber lit, rest)
         | None \<Rightarrow>
             if take 3 (nextchar # s) = ascii ''NaN'' then Inr (JNumber (ascii ''NaN''), drop 2 s)
             else if take 8 (nextchar # s) = ascii ''Infinity''
               then Inr (JNumber (ascii ''Infinity''), drop 7 s)
             else if take 9 (nextchar # s) = ascii ''-Infinity''
               then Inr (JNumber (ascii ''-Infinity''), drop 8 s)
             else Inl ValueError))"
| "JSONObject 0 s pairs = Inl RecursionError"
| "JSONObject (Suc k) s pairs =
     (case scanstring s of
        Inl e \<Rightarrow> Inl e
      | Inr (key, r) \<Rightarrow>
          (case skip_ws r of
             c # r1 \<Rightarrow>
               if c \<noteq> 58 then Inl ValueError
               else
                 (case scan_once k (skip_ws r1) of
                    Inl e \<Rightarrow> Inl e
                  | Inr (val, r2) \<Rightarrow>
                      (case skip_ws r2 of
                         d # r3 \<Rightarrow>
                           if d = 125 then Inr (JObject (dict_of_pairs (pairs @ [(key, val)])), r3)
                           else if d \<noteq> 44 then Inl ValueError
                           else
                             (case skip_ws r3 of
                                q # r4 \<Rightarrow>
                                  if q = 34 then JSONObject k r4 (pairs @ [(key, val)])
                                  else Inl ValueError
                              | [] \<Rightarrow> Inl ValueError)
                       | [] \<Rightarrow> Inl ValueError))
           | [] \<Rightarrow> Inl ValueError))"
| "JSONArray 0 s vals = Inl RecursionError"
| "JSONArray (Suc k) s vals =
     (case scan_once k s of
        Inl e \<Rightarrow> Inl e
      | Inr (val, r) \<Rightarrow>
          (case skip_ws r of
             c # r1 \<Rightarrow>
               if c = 93 then Inr (JArray (vals @ [val]), r1)
               else if c \<noteq> 44 then Inl ValueError
               else JSONArray k (skip_ws r1) (vals @ [val])
           | [] \<Rightarrow> Inl ValueError))"

definition json_loads :: "ustr \<Rightarrow> error + json" where
  "json_loads s =
     (if take 1 s = [65279] then Inl ValueError
      else case scan_once (2 * length s + 2) (skip_ws s) of
             Inl e \<Rightarrow> Inl e
           | Inr (obj, rest) \<Rightarrow> if skip_ws rest = [] then Inr obj else Inl ValueError)"

text \<open>
  \<open>decode_mapping\<close>: the bits as a number, the number as \<open>len // 8\<close> bytes, the bytes
  as UTF-8 text, the text as JSON.
\<close>

definition decode_mapping :: "ustr \<Rightarrow> error + json" where
  "decode_mapping encoded_mapping =
     (case py_int2 encoded_mapping of
        Inl e \<Rightarrow> Inl e
      | Inr n \<Rightarrow>
          (case to_bytes n (length encoded_mapping div 8) of
             Inl e \<Rightarrow> Inl e
           | Inr res_bytes \<Rightarrow>
               (case utf8_decode res_bytes of
                  Inl e \<Rightarrow> Inl e
                | Inr txt \<Rightarrow> json_loads txt)))"

text \<open>
  \<open>code in reverse_dict\<close> and \<open>reverse_dict[code]\<close>, for whatever value
  \<open>json.loads\<close> returned: a dict is asked for a key, a list for an element, a string
  for a substring; a number, a boolean and \<open>None\<close> raise \<open>TypeError\<close>. Only a dict
  can be indexed by a string.
\<close>

definition py_contains :: "json \<Rightarrow> ustr \<Rightarrow> error + bool" where
  "py_contains reverse_dict code =
     (case reverse_dict of
        JObject d \<Rightarrow> Inr (map_of d code \<noteq> None)
      | JArray vs \<Rightarrow> Inr (JString code \<in> set vs)
      | JString s \<Rightarrow> Inr (sublist code s)
      | _ \<Rightarrow> Inl TypeError)"

definition py_getitem :: "json \<Rightarrow> ustr \<Rightarrow> error + json" where
  "py_getitem reverse_dict code =
     (case reverse_dict of
        JObject d \<Rightarrow> (case map_of d code of None \<Rightarrow> Inl KeyError | Some v \<Rightarrow> Inr v)
      | _ \<Rightarrow> Inl TypeError)"

text \<open>
  \<open>decode_bits\<close>: the loop over the bits, as a function of the two variables
  \<open>decoded_text\<close> and \<open>code\<close>; it returns both as they are when the bits are
  exhausted. \<open>decoded_text += v\<close> needs \<open>v\<close> to be a string. \<open>decode_bits\<close>
  starts with two empty strings and returns \<open>decoded_text\<close>.
\<close>

fun decode_bits_loop :: "ustr \<Rightarrow> json \<Rightarrow> ustr \<times> ustr \<Rightarrow> error + ustr \<times> ustr" where
  "decode_bits_loop [] reverse_dict (decoded_text, code) = Inr (decoded_text, code)"
| "decode_bits_loop (b # encoded_text) reverse_dict (decoded_text, code) =
     (case py_contains reverse_dict (code @ [b]) of
        Inl e \<Rightarrow> Inl e
      | Inr False \<Rightarrow> decode_bits_loop encoded_text reverse_dict (decoded_text, code @ [b])
      | Inr True \<Rightarrow>
          (case py_getitem reverse_dict (code @ [b]) of
             Inl e \<Rightarrow> Inl e
           | Inr (JString v) \<Rightarrow> decode_bits_loop encoded_text reverse_dict (decoded_text @ v, [])
           | Inr _ \<Rightarrow> Inl TypeError))"

definition decode_bits :: "ustr \<Rightarrow> json \<Rightarrow> error + ustr" where
  "decode_bits encoded_text reverse_dict =
     (case decode_bits_loop encoded_text reverse_dict ([], []) of
        Inl e \<Rightarrow> Inl e
      | Inr (decoded_text, code) \<Rightarrow> Inr decoded_text)"

text \<open>
  \<open>decompress\<close>, from the bytes read from the compressed file to the text written to
  the output file.
\<close>

definition decompress :: "byte list \<Rightarrow> error + ustr" where
  "decompress file_bytes =
     (let b = bytes_bin file_bytes
      in case remove_padding_bits b of
           Inl e \<Rightarrow> Inl e
         | Inr b \<Rightarrow>
             (case get_encoded_text_mapping b of
                Inl e \<Rightarrow> Inl e
              | Inr (encoded_text, encoded_mapping) \<Rightarrow>
                  (case decode_mapping encoded_mapping of
                     Inl e \<Rightarrow> Inl e
                   | Inr reverse_mapping_dict \<Rightarrow> decode_bits encoded_text reverse_mapping_dict)))"

text \<open>Compressing a file and decompressing the result.\<close>

definition roundtrip :: "ustr \<Rightarrow> error + ustr" where
  "roundtrip file_text = (case compress file_text of Inl e \<Rightarrow> Inl e | Inr buf \<Rightarrow> decompress buf)"

section \<open>Notions used in the statements\<close>

text \<open>A bit string: every character is \<open>0\<close> or \<open>1\<close>.\<close>

definition is_bits :: "ustr \<Rightarrow> bool" where
  "is_bits s = list_all (\<lambda>c. c = 48 \<or> c = 49) s"

text \<open>A code table from strings to strings, as the JSON value \<open>decode_bits\<close> receives.\<close>

definition table_json :: "(ustr, ustr) dict \<Rightarrow> json" where
  "table_json d = JObject (map (\<lambda>(k, v). (k, JString v)) d)"

text \<open>
  The leaves that \<open>map\<close> visits below a node, in the order of the traversal, each with
  the bit path that \<open>map\<close> has accumulated when it reaches the leaf.
\<close>

fun leaf_codes :: "tree_node option \<Rightarrow> ustr \<Rightarrow> (nat \<times> ustr) list" where
  "leaf_codes None bit_code = []"
| "leaf_codes (Some (TreeNode f (Some c) l r)) bit_code = [(c, bit_code)]"
| "leaf_codes (Some (TreeNode f None l r)) bit_code =
     leaf_codes l (bit_code @ ascii ''0'') @ leaf_codes r (bit_code @ ascii ''1'')"

definition num_leaves :: "tree_node \<Rightarrow> nat" where
  "num_leaves t = length (leaf_codes (Some t) [])"

text \<open>No string of the list is a proper prefix of another.\<close>

definition prefix_free :: "ustr list \<Rightarrow> bool" where
  "prefix_free ks \<longleftrightarrow> (\<forall>x \<in> set ks. \<forall>y \<in> set ks. prefix x y \<longrightarrow> x = y)"

text \<open>One iteration of the loop of \<open>build_huffman_tree\<close>.\<close>

definition merge_step :: "tree_node list \<Rightarrow> tree_node list" where
  "merge_step stack =
     (let node_1 = last stack;
          stack1 = butlast stack;
          node_2 = last stack1;
          stack2 = butlast stack1;
          frequency = freq node_1 + freq node_2;
          merged = TreeNode frequency None (Some node_1) (Some node_2)
      in merged # stack2)"

text \<open>
  The two nodes that the next iteration removes have the lowest weights of the stack:
  no node that stays has a lower weight than either of them.
\<close>

definition lowest_two :: "tree_node list \<Rightarrow> bool" where
  "lowest_two stack \<longleftrightarrow>
     (\<forall>n \<in> set (butlast (butlast stack)).
        freq (last stack) \<le> freq n \<and> freq (last (butlast stack)) \<le> freq n)"

text \<open>The symbols at the leaves of a tree, in the order of the traversal.\<close>

definition leaf_chars :: "tree_node \<Rightarrow> nat list" where
  "leaf_chars t = map fst (leaf_codes (Some t) [])"

text \<open>The distinct elements of a list, each at the place of its first occurrence.\<close>

fun first_occurrences :: "'a list \<Rightarrow> 'a list" where
  "first_occurrences [] = []"
| "first_occurrences (x # xs) = x # removeAll x (first_occurrences xs)"

text \<open>
  The node that \<open>create_mapping\<close> pops for a text, and the two dicts that \<open>map\<close> builds
  from it.
\<close>

definition huffman_root :: "ustr \<Rightarrow> tree_node" where
  "huffman_root s = last (build_huffman_tree (make_stack (sorted_reverse (build_frequency s))))"

definition code_table :: "ustr \<Rightarrow> dicts" where
  "code_table s = map_node (Some (huffman_root s)) [] ([], [])"

text \<open>
  The tables that \<open>compress\<close> serializes: the keys are bit strings and distinct, the values
  are characters.
\<close>

definition valid_table :: "(ustr, nat) dict \<Rightarrow> bool" where
  "valid_table d \<longleftrightarrow>
     distinct (map fst d) \<and> (\<forall>kc \<in> set d. is_bits (fst kc) \<and> snd kc < 1114112)"

text \<open>The value that \<open>json.loads\<close> returns for the serialized table.\<close>

definition table_value :: "(ustr, nat) dict \<Rightarrow> json" where
  "table_value d = table_json (map (\<lambda>kc. (fst kc, [snd kc])) d)"

(*DEFS-END*)

section \<open>Bit strings and binary numbers\<close>

lemma is_bits_simps [simp]:
  "is_bits []" "is_bits (c # s) \<longleftrightarrow> (c = 48 \<or> c = 49) \<and> is_bits s"
  "is_bits (s @ t) \<longleftrightarrow> is_bits s \<and> is_bits t"
  "is_bits (replicate n 48)"
  by (auto simp: is_bits_def list_all_iff)

lemma is_bits_take: "is_bits s \<Longrightarrow> is_bits (take n s)"
  by (auto simp: is_bits_def list_all_iff dest: in_set_takeD)

lemma is_bits_drop: "is_bits s \<Longrightarrow> is_bits (drop n s)"
  by (auto simp: is_bits_def list_all_iff dest: in_set_dropD)

lemma bin_value_Nil [simp]: "bin_value [] = 0"
  by (simp add: bin_value_def)

lemma bin_value_snoc [simp]: "bin_value (s @ [c]) = 2 * bin_value s + (c - 48)"
  by (simp add: bin_value_def)

lemma bin_value_append: "bin_value (s @ t) = bin_value s * 2 ^ length t + bin_value t"
  by (induction t rule: rev_induct) (simp_all add: algebra_simps flip: append_assoc)

lemma bin_value_Cons: "bin_value (c # s) = (c - 48) * 2 ^ length s + bin_value s"
  using bin_value_append [of "[c]" s] by (simp add: bin_value_def)

lemma bin_value_single [simp]: "bin_value [c] = c - 48"
  by (simp add: bin_value_def)

lemma bin_value_replicate [simp]: "bin_value (replicate n 48) = 0"
  by (induction n) (simp_all add: bin_value_Cons)

lemma bin_value_less: "is_bits s \<Longrightarrow> bin_value s < 2 ^ length s"
  by (induction s rule: rev_induct) auto

lemma bin_value_zero: "is_bits s \<Longrightarrow> bin_value s = 0 \<Longrightarrow> s = replicate (length s) 48"
  by (induction s rule: rev_induct) (auto, metis replicate_append_same)

lemma is_bits_bin_digits [simp]: "is_bits (bin_digits n)"
  by (induction n rule: bin_digits.induct) (subst bin_digits.simps, auto)

lemma bin_value_bin_digits [simp]: "bin_value (bin_digits n) = n"
  by (induction n rule: bin_digits.induct) (subst bin_digits.simps, auto)

lemma length_bin_digits: "n < 2 ^ w \<Longrightarrow> 0 < w \<Longrightarrow> length (bin_digits n) \<le> w"
proof (induction n arbitrary: w rule: bin_digits.induct)
  case (1 n)
  show ?case
  proof (cases "n < 2")
    case True
    with "1.prems" show ?thesis by (subst bin_digits.simps) simp
  next
    case False
    with "1.prems" obtain v where w: "w = Suc v" by (cases w) auto
    with False "1.prems" have "0 < v" by (cases v) auto
    moreover from "1.prems" w have "n div 2 < 2 ^ v" by auto
    ultimately have "length (bin_digits (n div 2)) \<le> v" using "1.IH" False by simp
    with False w show ?thesis by (subst bin_digits.simps) simp
  qed
qed

lemma is_bits_format_bin [simp]: "is_bits (format_bin w n)"
  by (simp add: format_bin_def)

lemma bin_value_format_bin [simp]: "bin_value (format_bin w n) = n"
  by (simp add: format_bin_def bin_value_append)

lemma length_format_bin: "n < 2 ^ w \<Longrightarrow> 0 < w \<Longrightarrow> length (format_bin w n) = w"
  using length_bin_digits [of n w] by (simp add: format_bin_def)

lemma format_bin_snoc:
  "0 < v \<Longrightarrow> format_bin (Suc w) (2 * v + b) = format_bin w v @ [48 + b]" if "b < 2"
proof -
  assume "0 < v"
  then have "\<not> 2 * v + b < 2" by simp
  then have "bin_digits (2 * v + b) = bin_digits v @ [48 + b]"
    using that by (subst bin_digits.simps) simp
  then show ?thesis by (simp add: format_bin_def)
qed

lemma format_bin_bin_value: "is_bits s \<Longrightarrow> s \<noteq> [] \<Longrightarrow> format_bin (length s) (bin_value s) = s"
proof (induction s rule: rev_induct)
  case Nil
  then show ?case by simp
next
  case (snoc c s)
  then have c: "c = 48 \<or> c = 49" and s: "is_bits s" by auto
  show ?case
  proof (cases "bin_value s = 0")
    case True
    with s have "s = replicate (length s) 48" by (rule bin_value_zero)
    moreover have "bin_digits (c - 48) = [c]" using c by (subst bin_digits.simps) auto
    ultimately show ?thesis using True
      by (simp add: format_bin_def)
  next
    case False
    then have "s \<noteq> []" by auto
    with snoc s have IH: "format_bin (length s) (bin_value s) = s" by simp
    from c have "c - 48 < 2" "48 + (c - 48) = c" by auto
    with False IH show ?thesis
      using format_bin_snoc [of "c - 48" "bin_value s" "length s"] by simp
  qed
qed

lemma py_int2_bits: "is_bits s \<Longrightarrow> s \<noteq> [] \<Longrightarrow> py_int2 s = Inr (bin_value s)"
  by (auto simp: py_int2_def is_bits_def list_all_iff)

lemma py_int2_format_bin [simp]: "py_int2 (format_bin w n) = Inr n"
proof -
  have "bin_digits n \<noteq> []" by (subst bin_digits.simps) simp
  then have "format_bin w n \<noteq> []" by (simp add: format_bin_def)
  then show ?thesis by (simp add: py_int2_bits)
qed

section \<open>Empty input and padding\<close>

lemma build_huffman_tree_short: "length stack \<le> 1 \<Longrightarrow> build_huffman_tree stack = stack"
  by (subst build_huffman_tree.simps) simp

lemma build_frequency_Nil [simp]: "build_frequency [] = []"
  by (simp add: build_frequency_def)

lemma compress_bits_Nil: "compress_bits [] = Inl IndexError"
  by (simp add: compress_bits_def sorted_reverse_def make_stack_def build_huffman_tree_short create_mapping_def)

lemma rstrip_Nil [simp]: "rstrip [] = []"
  by (simp add: rstrip_def)

lemma div8_step: "0 < n \<Longrightarrow> Suc ((n - 8 + 7) div 8) = (n + 7) div (8::nat)"
proof (cases "n < 8")
  case True
  assume "0 < n"
  then have "n + 7 = 8 + (n - 1)" by simp
  then have "(n + 7) div 8 = Suc ((n - 1) div 8)" by (simp only: div_add_self1)
  with True show ?thesis by simp
next
  case False
  then have "n + 7 = 8 + (n - 8 + 7)" by simp
  then have "(n + 7) div 8 = Suc ((n - 8 + 7) div 8)" by (simp only: div_add_self1)
  then show ?thesis by simp
qed

lemma length_bits_tobytes: "length (bits_tobytes s) = (length s + 7) div 8"
proof (induction s rule: bits_tobytes.induct)
  case (1 s)
  show ?case
  proof (cases "s = []")
    case True
    then show ?thesis by (subst bits_tobytes.simps) simp
  next
    case False
    with 1 have "length (bits_tobytes (drop 8 s)) = (length s - 8 + 7) div 8" by simp
    moreover from False have "0 < length s" by simp
    then have "Suc ((length s - 8 + 7) div 8) = (length s + 7) div 8" by (rule div8_step)
    ultimately show ?thesis using False
      by (subst bits_tobytes.simps) simp
  qed
qed

lemma pad_encoded_text_tree_eq:
  "pad_encoded_text_tree body =
     format_bin 8 (8 - length body mod 8) @ body @ replicate (8 - length body mod 8) 48"
  by (simp add: pad_encoded_text_tree_def Let_def)

lemma length_pad_info: "length (format_bin 8 (8 - length body mod 8)) = 8"
proof (rule length_format_bin)
  have "8 - length body mod 8 \<le> 8" by simp
  also have "(8::nat) < 2 ^ 8" by simp
  finally show "8 - length body mod 8 < 2 ^ 8" .
qed simp

lemma length_pad_mod: "length (pad_encoded_text_tree body) mod 8 = 0"
  unfolding pad_encoded_text_tree_eq length_append length_pad_info length_replicate
  by presburger

text \<open>
  Claim C5. Every padded bit string is the 8-bit pad count, the body, and exactly
  that many zero bits; the pad count is between 1 and 8 (8 for a body that is already
  aligned), the first eight bits read back as the pad count, the total length is a
  multiple of 8, so that the bytes written hold exactly these bits, and every buffer
  that \<open>compress\<close> produces is such a padded bit string.
\<close>

theorem padding_invariant:
  "pad_encoded_text_tree body =
     format_bin 8 (8 - length body mod 8) @ body @ replicate (8 - length body mod 8) 48
   \<and> 1 \<le> 8 - length body mod 8 \<and> 8 - length body mod 8 \<le> 8
   \<and> length (format_bin 8 (8 - length body mod 8)) = 8
   \<and> py_int2 (take 8 (pad_encoded_text_tree body)) = Inr (8 - length body mod 8)
   \<and> length (pad_encoded_text_tree body) mod 8 = 0
   \<and> 8 * length (bits_tobytes (pad_encoded_text_tree body)) = length (pad_encoded_text_tree body)
   \<and> (case compress_bits text of Inl e \<Rightarrow> True
       | Inr bits \<Rightarrow> \<exists>body'. bits = pad_encoded_text_tree body')"
proof -
  have a: "py_int2 (take 8 (pad_encoded_text_tree body)) = Inr (8 - length body mod 8)"
    by (simp add: pad_encoded_text_tree_eq length_pad_info)
  have b: "8 * length (bits_tobytes (pad_encoded_text_tree body)) = length (pad_encoded_text_tree body)"
    using length_pad_mod [of body] unfolding length_bits_tobytes by presburger
  have c: "(case compress_bits text of Inl e \<Rightarrow> True
       | Inr bits \<Rightarrow> \<exists>body'. bits = pad_encoded_text_tree body')"
    unfolding compress_bits_def Let_def
    by (simp split: sum.split prod.split) blast
  have d: "1 \<le> 8 - length body mod 8" "8 - length body mod 8 \<le> 8" by simp_all
  show ?thesis
    by (intro conjI pad_encoded_text_tree_eq d length_pad_info a length_pad_mod b c)
qed

section \<open>Greedy decoding\<close>

lemma map_of_table:
  "map_of (map (\<lambda>(k, v). (k, JString v)) d) k = map_option JString (map_of d k)"
  by (induction d) auto

lemma decode_bits_loop_table:
  "decode_bits_loop (b # bits) (table_json d) (decoded_text, code) =
     (case map_of d (code @ [b]) of
        Some v \<Rightarrow> decode_bits_loop bits (table_json d) (decoded_text @ v, [])
      | None \<Rightarrow> decode_bits_loop bits (table_json d) (decoded_text, code @ [b]))"
  by (simp add: table_json_def py_contains_def py_getitem_def map_of_table split: option.split)

lemma decode_bits_loop_total:
  "\<exists>decoded code'. decode_bits_loop bits (table_json d) st = Inr (decoded, code')"
proof (induction bits arbitrary: st)
  case Nil
  then show ?case by (cases st) simp
next
  case (Cons b bits)
  obtain decoded_text code where st: "st = (decoded_text, code)" by (cases st)
  show ?case unfolding st decode_bits_loop_table
    by (cases "map_of d (code @ [b])") (use Cons.IH in auto)
qed

lemma decode_bits_total: "\<exists>decoded. decode_bits bits (table_json d) = Inr decoded"
proof -
  obtain decoded code' where "decode_bits_loop bits (table_json d) ([], []) = Inr (decoded, code')"
    using decode_bits_loop_total by blast
  then show ?thesis by (simp add: decode_bits_def)
qed

text \<open>
  Claim C3, as the code has it. The decoder scans one bit at a time; it emits the
  symbol and resets the accumulator exactly when the accumulated bits are a key of the
  table. For a table from strings to strings it never fails: when the bits are exhausted
  it returns the text decoded so far, whatever is left in the accumulator.
\<close>

theorem decode_bits_greedy:
  "decode_bits_loop [] (table_json d) (decoded_text, code) = Inr (decoded_text, code)
   \<and> decode_bits_loop (b # bits) (table_json d) (decoded_text, code) =
       (case map_of d (code @ [b]) of
          Some v \<Rightarrow> decode_bits_loop bits (table_json d) (decoded_text @ v, [])
        | None \<Rightarrow> decode_bits_loop bits (table_json d) (decoded_text, code @ [b]))
   \<and> (\<exists>decoded code'. decode_bits_loop bits (table_json d) ([], []) = Inr (decoded, code')
         \<and> decode_bits bits (table_json d) = Inr decoded)"
proof -
  obtain decoded code' where *: "decode_bits_loop bits (table_json d) ([], []) = Inr (decoded, code')"
    using decode_bits_loop_total by blast
  then have "decode_bits bits (table_json d) = Inr decoded" by (simp add: decode_bits_def)
  with * show ?thesis using decode_bits_loop_table by auto
qed

text \<open>
  The claim as stated fails: with the table \<open>{"0": "a"}\<close> and the bit \<open>1\<close>, the bits are
  exhausted with the accumulator \<open>1\<close>, which is no key of the table, and the decoder
  returns the empty text.
\<close>

theorem decode_bits_unmatched_counterexample:
  "decode_bits_loop (ascii ''1'') (table_json [(ascii ''0'', ascii ''a'')]) ([], []) = Inr ([], ascii ''1'')
   \<and> map_of [(ascii ''0'', ascii ''a'')] (ascii ''1'') = None
   \<and> decode_bits (ascii ''1'') (table_json [(ascii ''0'', ascii ''a'')]) = Inr []"
  by (simp add: decode_bits_def table_json_def py_contains_def py_getitem_def ascii_def)

section \<open>Code assignment\<close>

lemma map_node_fold:
  "map_node t p ds =
     (fold (\<lambda>ck. AList.update (fst ck) (snd ck)) (leaf_codes t p) (fst ds),
      fold (\<lambda>ck. AList.update (snd ck) (fst ck)) (leaf_codes t p) (snd ds))"
  by (induction t p ds rule: map_node.induct) simp_all

lemma fold_update_keys:
  "fst ` set (fold (\<lambda>ck. AList.update (f ck) (g ck)) cs d) = fst ` set d \<union> f ` set cs"
  by (induction cs arbitrary: d) (auto simp: AList.dom_update)

lemma fold_update_distinct:
  "distinct (map fst d) \<Longrightarrow> distinct (map fst (fold (\<lambda>ck. AList.update (f ck) (g ck)) cs d))"
  by (induction cs arbitrary: d) (auto simp: AList.distinct_update)

lemma fold_update_map_of:
  "map_of (fold (\<lambda>ck. AList.update (f ck) (g ck)) cs d) k = Some v \<Longrightarrow>
     map_of d k = Some v \<or> (\<exists>ck \<in> set cs. f ck = k \<and> g ck = v)"
  by (induction cs arbitrary: d) (fastforce simp: AList.update_conv' split: if_splits)+

lemma leaf_codes_prefix: "(c, k) \<in> set (leaf_codes t p) \<Longrightarrow> prefix p k"
  by (induction t p rule: leaf_codes.induct) (auto dest: append_prefixD)

lemma branches_incomparable:
  assumes "prefix (p @ [a]) x" "prefix (p @ [b]) y" "prefix x y"
  shows "a = b"
proof -
  from assms have "prefix (p @ [a]) y" by (meson prefix_order.trans)
  with assms(2) obtain u v where "y = p @ [a] @ u" "y = p @ [b] @ v"
    by (auto simp: prefix_def)
  then show ?thesis by simp
qed

lemma leaf_codes_prefix_free:
  "distinct (map snd (leaf_codes t p)) \<and> prefix_free (map snd (leaf_codes t p))"
proof (induction t p rule: leaf_codes.induct)
  case (1 bit_code)
  then show ?case by (simp add: prefix_free_def)
next
  case (2 f c l r bit_code)
  then show ?case by (simp add: prefix_free_def)
next
  case (3 f l r bit_code)
  let ?L = "leaf_codes l (bit_code @ ascii ''0'')" and ?R = "leaf_codes r (bit_code @ ascii ''1'')"
  have cross: "\<not> prefix x y \<and> \<not> prefix y x"
    if "x \<in> snd ` set ?L" "y \<in> snd ` set ?R" for x y
  proof -
    from that have "prefix (bit_code @ [48]) x" "prefix (bit_code @ [49]) y"
      using leaf_codes_prefix by (fastforce simp: ascii_def)+
    then show ?thesis using branches_incomparable by fastforce
  qed
  then have "snd ` set ?L \<inter> snd ` set ?R = {}" by blast
  with 3 cross show ?case
    by (simp add: prefix_free_def) blast
qed

lemma leaf_codes_root_internal:
  "2 \<le> num_leaves t \<Longrightarrow> (c, k) \<in> set (leaf_codes (Some t) []) \<Longrightarrow> k \<noteq> []"
proof (cases t)
  case (TreeNode f ch l r)
  assume n: "2 \<le> num_leaves t" and ck: "(c, k) \<in> set (leaf_codes (Some t) [])"
  from n TreeNode have "ch = None" by (cases ch) (simp_all add: num_leaves_def)
  with ck TreeNode have "prefix [48] k \<or> prefix [49] k"
    using leaf_codes_prefix by (fastforce simp: ascii_def)
  then show ?thesis by auto
qed

text \<open>
  Claim C7. For every tree with at least two leaves, the table that \<open>map\<close> builds from
  the root with the empty path is prefix-free and has no empty code: no key of
  \<open>reverse_mapping_dict\<close> is a proper prefix of another, the keys are distinct and not
  empty, and in \<open>mapping_dict\<close> the code of a symbol is never a prefix of the code of
  another symbol.
\<close>

theorem prefix_freedom:
  assumes "2 \<le> num_leaves t"
    and "map_node (Some t) [] ([], []) = (mapping_dict, reverse_mapping_dict)"
  shows "prefix_free (map fst reverse_mapping_dict)
    \<and> distinct (map fst reverse_mapping_dict)
    \<and> (\<forall>k \<in> set (map fst reverse_mapping_dict). 1 \<le> length k)
    \<and> (\<forall>c c' k k'. map_of mapping_dict c = Some k \<and> map_of mapping_dict c' = Some k' \<and> c \<noteq> c'
          \<longrightarrow> \<not> prefix k k')
    \<and> (\<forall>c k. map_of mapping_dict c = Some k \<longrightarrow> 1 \<le> length k)"
proof -
  let ?cs = "leaf_codes (Some t) []"
  from assms(2) have md: "mapping_dict = fold (\<lambda>ck. AList.update (fst ck) (snd ck)) ?cs []"
    and rd: "reverse_mapping_dict = fold (\<lambda>ck. AList.update (snd ck) (fst ck)) ?cs []"
    by (simp_all add: map_node_fold)
  have keys: "set (map fst reverse_mapping_dict) = set (map snd ?cs)"
    by (simp add: rd fold_update_keys)
  have pf: "prefix_free (map snd ?cs)" and dist: "distinct (map snd ?cs)"
    using leaf_codes_prefix_free by blast+
  have in_cs: "(c, k) \<in> set ?cs" if "map_of mapping_dict c = Some k" for c k
    using fold_update_map_of [of fst snd ?cs "[]" c k] that by (auto simp: md)
  have 1: "prefix_free (map fst reverse_mapping_dict)"
    using pf keys by (simp add: prefix_free_def)
  have 2: "distinct (map fst reverse_mapping_dict)"
    by (simp add: rd fold_update_distinct)
  have 3: "\<forall>k \<in> set (map fst reverse_mapping_dict). 1 \<le> length k"
    unfolding keys using leaf_codes_root_internal [OF assms(1)]
    by (auto simp: Suc_le_eq)
  have 4: "\<not> prefix k k'"
    if "map_of mapping_dict c = Some k" "map_of mapping_dict c' = Some k'" "c \<noteq> c'" for c c' k k'
  proof
    assume "prefix k k'"
    from that(1,2) have ck: "(c, k) \<in> set ?cs" "(c', k') \<in> set ?cs" by (auto dest: in_cs)
    then have "k \<in> set (map snd ?cs)" "k' \<in> set (map snd ?cs)" by force+
    with pf \<open>prefix k k'\<close> have "k = k'" by (auto simp: prefix_free_def)
    moreover from dist have "inj_on snd (set ?cs)" by (simp add: distinct_map)
    ultimately have "(c, k) = (c', k')"
      using ck inj_onD [of snd "set ?cs" "(c, k)" "(c', k')"] by simp
    with that(3) show False by simp
  qed
  have 5: "\<forall>c k. map_of mapping_dict c = Some k \<longrightarrow> 1 \<le> length k"
    using leaf_codes_root_internal [OF assms(1)] in_cs by (fastforce simp: Suc_le_eq)
  from 1 2 3 4 5 show ?thesis by blast
qed

theorem prefix_freedom_witness:
  "2 \<le> num_leaves (TreeNode 2 None (Some (TreeNode 1 (Some 98) None None)) (Some (TreeNode 1 (Some 97) None None)))
   \<and> map_node (Some (TreeNode 2 None (Some (TreeNode 1 (Some 98) None None)) (Some (TreeNode 1 (Some 97) None None)))) [] ([], [])
       = ([(98, ascii ''0''), (97, ascii ''1'')], [(ascii ''0'', 98), (ascii ''1'', 97)])
   \<and> prefix_free (map fst [(ascii ''0'', 98::nat), (ascii ''1'', 97)])
   \<and> distinct (map fst [(ascii ''0'', 98::nat), (ascii ''1'', 97)])"
proof -
  let ?t = "TreeNode 2 None (Some (TreeNode 1 (Some 98) None None)) (Some (TreeNode 1 (Some 97) None None))"
  have a: "2 \<le> num_leaves ?t" by (simp add: num_leaves_def)
  have b: "map_node (Some ?t) [] ([], []) = ([(98, ascii ''0''), (97, ascii ''1'')], [(ascii ''0'', 98), (ascii ''1'', 97)])"
    by (simp add: ascii_def)
  note th = prefix_freedom [OF a b]
  show ?thesis
    by (intro conjI a b th [THEN conjunct1] th [THEN conjunct2, THEN conjunct1])
qed

section \<open>Tree construction\<close>

lemma build_huffman_tree_step:
  "1 < length stack \<Longrightarrow> build_huffman_tree stack = build_huffman_tree (merge_step stack)"
  by (subst build_huffman_tree.simps) (simp add: merge_step_def Let_def)

lemma two_last: "1 < length stack \<Longrightarrow> \<exists>xs a b. stack = xs @ [a, b]"
proof -
  assume "1 < length stack"
  then obtain ys b where 1: "stack = ys @ [b]" by (cases stack rule: rev_cases) auto
  with \<open>1 < length stack\<close> obtain xs a where "ys = xs @ [a]" by (cases ys rule: rev_cases) auto
  with 1 show ?thesis by simp
qed

lemma merge_step_snoc2:
  "merge_step (xs @ [a, b]) = TreeNode (freq b + freq a) None (Some b) (Some a) # xs"
  by (simp add: merge_step_def Let_def butlast_append)

lemma leaf_codes_path: "map fst (leaf_codes t p) = map fst (leaf_codes t q)"
  by (induction t p arbitrary: q rule: leaf_codes.induct) (simp_all, metis)

lemma leaf_chars_merged:
  "leaf_chars (TreeNode f None (Some a) (Some b)) = leaf_chars a @ leaf_chars b"
  using leaf_codes_path [of "Some a" "ascii ''0''" "[]"] leaf_codes_path [of "Some b" "ascii ''1''" "[]"]
  by (simp add: leaf_chars_def)

lemma build_huffman_tree_result:
  "length stack = Suc n \<Longrightarrow>
     \<exists>root. build_huffman_tree stack = [root]
       \<and> freq root = sum_list (map freq stack)
       \<and> mset (leaf_chars root) = mset (concat (map leaf_chars stack))"
proof (induction n arbitrary: stack)
  case 0
  then obtain root where "stack = [root]" by (cases stack) auto
  then show ?case by (simp add: build_huffman_tree_short)
next
  case (Suc n)
  then obtain xs a b where s: "stack = xs @ [a, b]" using two_last [of stack] by auto
  let ?m = "TreeNode (freq b + freq a) None (Some b) (Some a)"
  from s Suc.prems have "length (?m # xs) = Suc n" by simp
  from Suc.IH [OF this] obtain root where r: "build_huffman_tree (?m # xs) = [root]"
    "freq root = sum_list (map freq (?m # xs))"
    "mset (leaf_chars root) = mset (concat (map leaf_chars (?m # xs)))" by blast
  have "build_huffman_tree stack = build_huffman_tree (?m # xs)"
    using build_huffman_tree_step [of stack] s by (simp add: merge_step_snoc2)
  with r s show ?case by (simp add: leaf_chars_merged ac_simps)
qed

lemma build_huffman_tree_root:
  "length stack = Suc (Suc n) \<Longrightarrow>
     \<exists>f l r. build_huffman_tree stack = [TreeNode f None (Some l) (Some r)]"
proof (induction n arbitrary: stack)
  case 0
  then obtain xs a b where s: "stack = xs @ [a, b]" using two_last [of stack] by auto
  with 0 have "xs = []" by simp
  with s have "build_huffman_tree stack = [TreeNode (freq b + freq a) None (Some b) (Some a)]"
    using build_huffman_tree_step [of stack] merge_step_snoc2 [of "[]" a b]
    by (simp add: build_huffman_tree_short)
  then show ?case by blast
next
  case (Suc n)
  then obtain xs a b where s: "stack = xs @ [a, b]" using two_last [of stack] by auto
  let ?m = "TreeNode (freq b + freq a) None (Some b) (Some a)"
  from s Suc.prems have "length (?m # xs) = Suc (Suc n)" by simp
  from Suc.IH [OF this] obtain f l r where
    "build_huffman_tree (?m # xs) = [TreeNode f None (Some l) (Some r)]" by blast
  moreover have "build_huffman_tree stack = build_huffman_tree (?m # xs)"
    using build_huffman_tree_step [of stack] s by (simp add: merge_step_snoc2)
  ultimately show ?case by simp
qed

lemma freq_make_stack: "map freq (make_stack fr) = map snd fr"
  by (induction fr) (auto simp: make_stack_def)

lemma sorted_desc_sorted_reverse: "sorted_wrt (\<lambda>x y. snd y \<le> snd x) (sorted_reverse fr)"
proof -
  have "sorted (map snd (sort_key snd (rev fr)))" by (rule sorted_sort_key)
  then have "sorted_wrt (\<lambda>x y. snd x \<le> snd y) (sort_key snd (rev fr))"
    by (simp add: sorted_map)
  then show ?thesis by (simp add: sorted_reverse_def sorted_wrt_rev)
qed

lemma sorted_make_stack:
  "sorted_wrt (\<lambda>a b. freq b \<le> freq a) (make_stack (sorted_reverse fr))"
proof -
  have "sorted_wrt (\<lambda>a b. b \<le> a) (map snd (sorted_reverse fr))"
    using sorted_desc_sorted_reverse [of fr] by (simp add: sorted_wrt_map)
  then have "sorted_wrt (\<lambda>a b. b \<le> a) (map freq (make_stack (sorted_reverse fr)))"
    by (simp add: freq_make_stack)
  then show ?thesis by (simp add: sorted_wrt_map)
qed

lemma sorted_lowest_two:
  assumes "sorted_wrt (\<lambda>a b. freq b \<le> freq a) stack"
  shows "lowest_two stack"
proof (cases "1 < length stack")
  case True
  then obtain xs a b where s: "stack = xs @ [a, b]" using two_last by blast
  with assms show ?thesis
    by (auto simp: lowest_two_def butlast_append sorted_wrt_append)
next
  case False
  then have "butlast (butlast stack) = []"
    by (cases stack) (auto split: if_splits)
  then show ?thesis by (simp add: lowest_two_def)
qed

text \<open>
  Claim C6, as the code has it. Each iteration removes the last two nodes of the
  working sequence, merges them into a node without a symbol whose weight is the sum of
  the two, with the first removed node on the left and the second on the right, and
  inserts the merged node at the front; the loop ends with exactly one node, whose
  weight is the sum of all weights. The leaves start in descending order of weight, so
  the two nodes of the first iteration have the lowest weights. Later iterations take
  the last two nodes whatever their weights.
\<close>

theorem merge_discipline:
  "(1 < length stack \<longrightarrow> build_huffman_tree stack = build_huffman_tree (merge_step stack))
   \<and> (length stack \<le> 1 \<longrightarrow> build_huffman_tree stack = stack)
   \<and> merge_step (xs @ [node_2, node_1]) =
        TreeNode (freq node_1 + freq node_2) None (Some node_1) (Some node_2) # xs
   \<and> (stack \<noteq> [] \<longrightarrow>
        (\<exists>root. build_huffman_tree stack = [root] \<and> freq root = sum_list (map freq stack)))
   \<and> sorted_wrt (\<lambda>a b. freq b \<le> freq a) (make_stack (sorted_reverse (build_frequency text)))
   \<and> lowest_two (make_stack (sorted_reverse (build_frequency text)))"
proof -
  have "\<exists>root. build_huffman_tree stack = [root] \<and> freq root = sum_list (map freq stack)"
    if "stack \<noteq> []"
  proof -
    from that obtain n where "length stack = Suc n" by (cases stack) auto
    from build_huffman_tree_result [OF this] show ?thesis by blast
  qed
  then show ?thesis
    using build_huffman_tree_step [of stack] build_huffman_tree_short [of stack]
      merge_step_snoc2 [of xs node_2 node_1] sorted_make_stack [of "build_frequency text"]
      sorted_lowest_two [OF sorted_make_stack [of "build_frequency text"]]
    by blast
qed

theorem merge_discipline_witness:
  "1 < length [TreeNode 1 (Some 97) None None, TreeNode 1 (Some 98) None None]
   \<and> build_huffman_tree [TreeNode 1 (Some 97) None None, TreeNode 1 (Some 98) None None] =
       build_huffman_tree (merge_step [TreeNode 1 (Some 97) None None, TreeNode 1 (Some 98) None None])
   \<and> length [TreeNode 1 (Some 97) None None] \<le> 1
   \<and> build_huffman_tree [TreeNode 1 (Some 97) None None] = [TreeNode 1 (Some 97) None None]
   \<and> [TreeNode 1 (Some 97) None None] \<noteq> []
   \<and> (\<exists>root. build_huffman_tree [TreeNode 1 (Some 97) None None] = [root]
         \<and> freq root = sum_list (map freq [TreeNode 1 (Some 97) None None]))"
proof -
  let ?S = "[TreeNode 1 (Some 97) None None, TreeNode 1 (Some 98) None None]"
  let ?T = "[TreeNode 1 (Some 97) None None]"
  have 1: "1 < length ?S" by simp
  have 2: "build_huffman_tree ?S = build_huffman_tree (merge_step ?S)"
    using 1 by (rule merge_discipline [THEN conjunct1, THEN mp])
  have 3: "length ?T \<le> 1" by simp
  have 4: "build_huffman_tree ?T = ?T"
    using 3 by (rule merge_discipline [THEN conjunct2, THEN conjunct1, THEN mp])
  have 5: "?T \<noteq> []" by simp
  have 6: "\<exists>root. build_huffman_tree ?T = [root] \<and> freq root = sum_list (map freq ?T)"
    using 5
    by (rule merge_discipline [THEN conjunct2, THEN conjunct2, THEN conjunct2, THEN conjunct1, THEN mp])
  show ?thesis by (intro conjI 1 2 3 4 5 6)
qed

text \<open>
  The claim as stated fails for the text \<open>aaaabcd\<close>: after the first iteration the stack
  holds the merged node of weight 2, the leaf \<open>a\<close> of weight 4 and the leaf \<open>b\<close> of
  weight 1; the second iteration removes \<open>b\<close> and \<open>a\<close>, and the node of weight 2
  stays.
\<close>

theorem lowest_two_counterexample:
  "merge_step (make_stack (sorted_reverse (build_frequency (ascii ''aaaabcd'')))) =
     [TreeNode 2 None (Some (TreeNode 1 (Some 100) None None)) (Some (TreeNode 1 (Some 99) None None)),
      TreeNode 4 (Some 97) None None, TreeNode 1 (Some 98) None None]
   \<and> \<not> lowest_two (merge_step (make_stack (sorted_reverse (build_frequency (ascii ''aaaabcd'')))))"
  by code_simp

section \<open>Frequency analysis\<close>

lemma set_first_occurrences [simp]: "set (first_occurrences xs) = set xs"
  by (induction xs) auto

lemma distinct_first_occurrences [simp]: "distinct (first_occurrences xs)"
  by (induction xs) (auto simp: distinct_removeAll)

lemma keys_build_frequency_step:
  "map fst (build_frequency_step c fr) =
     (if c \<in> set (map fst fr) then map fst fr else map fst fr @ [c])"
  by (simp add: build_frequency_step_def AList.update_keys split: option.split)

lemma keys_fold_build_frequency:
  "map fst (fold build_frequency_step s fr) =
     map fst fr @ filter (\<lambda>c. c \<notin> set (map fst fr)) (first_occurrences s)"
proof (induction s arbitrary: fr)
  case Nil
  then show ?case by simp
next
  case (Cons c s)
  show ?case
  proof (cases "c \<in> set (map fst fr)")
    case True
    then have "filter (\<lambda>x. x \<notin> set (map fst fr)) (removeAll c (first_occurrences s)) =
               filter (\<lambda>x. x \<notin> set (map fst fr)) (first_occurrences s)"
      by (auto simp: removeAll_filter_not_eq intro: filter_cong)
    with True show ?thesis
      by (simp add: Cons.IH keys_build_frequency_step del: set_map)
  next
    case False
    have "filter (\<lambda>x. x \<notin> set (map fst fr @ [c])) (first_occurrences s) =
          filter (\<lambda>x. x \<notin> set (map fst fr)) (removeAll c (first_occurrences s))"
      by (auto simp: removeAll_filter_not_eq intro: filter_cong)
    with False show ?thesis
      by (simp add: Cons.IH keys_build_frequency_step del: set_map set_append)
  qed
qed

lemma keys_build_frequency: "map fst (build_frequency text) = first_occurrences text"
  by (simp add: build_frequency_def keys_fold_build_frequency)

lemma map_of_build_frequency_step:
  "map_of (build_frequency_step c fr) x =
     (if x = c then Some (case map_of fr c of None \<Rightarrow> 1 | Some n \<Rightarrow> n + 1) else map_of fr x)"
  by (simp add: build_frequency_step_def AList.update_conv' split: option.split)

lemma map_of_fold_build_frequency:
  "map_of (fold build_frequency_step s fr) x =
     (if x \<in> set s then Some (count_list s x + (case map_of fr x of None \<Rightarrow> 0 | Some n \<Rightarrow> n))
      else map_of fr x)"
  by (induction s arbitrary: fr) (auto simp: map_of_build_frequency_step split: option.split)

lemma map_of_build_frequency:
  "map_of (build_frequency text) x = (if x \<in> set text then Some (count_list text x) else None)"
  by (simp add: build_frequency_def map_of_fold_build_frequency)

lemma sorted_reverse_stable:
  "filter (\<lambda>kv. snd kv = n) (sorted_reverse fr) = filter (\<lambda>kv. snd kv = n) fr"
  by (simp add: sorted_reverse_def sort_key_stable flip: rev_filter)

lemma set_sorted_reverse [simp]: "set (sorted_reverse fr) = set fr"
  by (simp add: sorted_reverse_def)

lemma mset_sorted_reverse [simp]: "mset (sorted_reverse fr) = mset fr"
  by (simp add: sorted_reverse_def)

lemma distinct_keys_sorted_reverse:
  "distinct (map fst (sorted_reverse fr)) = distinct (map fst fr)"
proof -
  have "mset (map fst (sorted_reverse fr)) = mset (map fst fr)" by simp
  then show ?thesis by (rule mset_eq_imp_distinct_iff)
qed

lemma values_build_frequency:
  "map snd (build_frequency s) = map (count_list s) (first_occurrences s)"
proof -
  have "snd kv = count_list s (fst kv)" if "kv \<in> set (build_frequency s)" for kv
  proof -
    have "distinct (map fst (build_frequency s))" by (simp add: keys_build_frequency)
    with that have "map_of (build_frequency s) (fst kv) = Some (snd kv)" by simp
    then show ?thesis by (simp add: map_of_build_frequency split: if_splits)
  qed
  then have "map snd (build_frequency s) = map (count_list s) (map fst (build_frequency s))"
    by simp
  then show ?thesis by (simp add: keys_build_frequency)
qed

section \<open>Bits and bytes\<close>

lemma length_format_bin8 [simp]: "length (format_bin 8 (unat (b :: byte))) = 8"
proof (rule length_format_bin)
  show "unat b < 2 ^ 8" using unsigned_less [of b] by simp
qed simp

lemma bytes_bin_Cons: "bytes_bin (b # bs) = format_bin 8 (unat b) @ bytes_bin bs"
  by (simp add: bytes_bin_def)

lemma bytes_bin_Nil [simp]: "bytes_bin [] = []"
  by (simp add: bytes_bin_def)

lemma bytes_bin_append: "bytes_bin (as @ bs) = bytes_bin as @ bytes_bin bs"
  by (simp add: bytes_bin_def)

lemma is_bits_bytes_bin [simp]: "is_bits (bytes_bin bs)"
  by (induction bs) (simp_all add: bytes_bin_Cons)

lemma length_bytes_bin [simp]: "length (bytes_bin bs) = 8 * length bs"
  by (induction bs) (simp_all add: bytes_bin_Cons)

lemma bits_tobytes_Nil [simp]: "bits_tobytes [] = []"
  by (subst bits_tobytes.simps) simp

lemma bits_tobytes_chunk:
  "length x = 8 \<Longrightarrow> bits_tobytes (x @ rest) = of_nat (bin_value x) # bits_tobytes rest"
  by (subst bits_tobytes.simps) auto

lemma bits_tobytes_bytes_bin: "bits_tobytes (bytes_bin bs) = bs"
  by (induction bs) (simp_all add: bytes_bin_Cons bits_tobytes_chunk)

lemma bytes_bin_bits_tobytes:
  "is_bits s \<Longrightarrow> length s = 8 * n \<Longrightarrow> bytes_bin (bits_tobytes s) = s"
proof (induction n arbitrary: s)
  case 0
  then show ?case by simp
next
  case (Suc n)
  let ?x = "take 8 s" and ?r = "drop 8 s"
  from Suc.prems have lx: "length ?x = 8" and lr: "length ?r = 8 * n" by simp_all
  from Suc.prems have bx: "is_bits ?x" and br: "is_bits ?r"
    by (simp_all add: is_bits_take is_bits_drop)
  from lx have "?x \<noteq> []" by auto
  with bx lx have fx: "format_bin 8 (bin_value ?x) = ?x"
    using format_bin_bin_value [of ?x] by simp
  from bx lx have "bin_value ?x < 2 ^ 8" using bin_value_less [of ?x] by simp
  then have "unat (of_nat (bin_value ?x) :: byte) = bin_value ?x"
    by (simp add: unat_of_nat)
  with fx have "bytes_bin [of_nat (bin_value ?x) :: byte] = ?x"
    by (simp add: bytes_bin_def)
  moreover have "bits_tobytes s = of_nat (bin_value ?x) # bits_tobytes ?r"
    using bits_tobytes_chunk [OF lx, of ?r] by simp
  ultimately show ?case
    using Suc.IH [OF br lr] bytes_bin_append [of "[of_nat (bin_value ?x)]" "bits_tobytes ?r"]
    by simp
qed

lemma bin_value_bytes_bin_snoc:
  "bin_value (bytes_bin (bs @ [b])) = bin_value (bytes_bin bs) * 256 + unat b"
  by (simp add: bytes_bin_append bin_value_append) (simp add: bytes_bin_def)

lemma bytes_be_bytes_bin: "bytes_be (length bs) (bin_value (bytes_bin bs)) = bs"
proof (induction bs rule: rev_induct)
  case Nil
  then show ?case by simp
next
  case (snoc b bs)
  have "unat b < 256" using unsigned_less [of b] by simp
  then show ?case using snoc by (simp add: bin_value_bytes_bin_snoc)
qed

lemma to_bytes_bytes_bin: "to_bytes (bin_value (bytes_bin bs)) (length bs) = Inr bs"
proof -
  have "bin_value (bytes_bin bs) < 2 ^ length (bytes_bin bs)"
    by (rule bin_value_less) simp
  then have "bin_value (bytes_bin bs) < 256 ^ length bs"
    by (simp add: power_mult)
  then show ?thesis by (simp add: to_bytes_def bytes_be_bytes_bin)
qed

lemma decode_mapping_bytes_bin:
  "bs \<noteq> [] \<Longrightarrow> decode_mapping (bytes_bin bs) =
     (case utf8_decode bs of Inl e \<Rightarrow> Inl e | Inr t \<Rightarrow> json_loads t)"
proof -
  assume "bs \<noteq> []"
  then have "bytes_bin bs \<noteq> []" by (cases bs) (auto simp: bytes_bin_Cons format_bin_def)
  then have "py_int2 (bytes_bin bs) = Inr (bin_value (bytes_bin bs))"
    by (simp add: py_int2_bits)
  then show ?thesis by (simp add: decode_mapping_def to_bytes_bytes_bin)
qed

section \<open>Framing\<close>

lemma remove_padding_bits_pad:
  "remove_padding_bits (pad_encoded_text_tree body) = Inr body"
proof -
  have "\<not> 8 \<le> length body mod 8" by (simp add: not_le)
  then show ?thesis
    by (simp add: remove_padding_bits_def pad_encoded_text_tree_eq length_pad_info
        slice_to_neg_def Let_def)
qed

lemma get_encoded_text_mapping_frame:
  assumes "length encoded_tree < 2 ^ 16" and "encoded_tree \<noteq> []"
  shows "get_encoded_text_mapping (encode_text_tree encoded_text encoded_tree) =
           Inr (encoded_text, encoded_tree)"
proof -
  have "length (format_bin 16 (length encoded_tree)) = 16"
    using assms(1) by (rule length_format_bin) simp
  with assms(2) show ?thesis
    by (simp add: get_encoded_text_mapping_def encode_text_tree_def Let_def
        slice_to_neg_def slice_from_neg_def)
qed

lemma ascii_utf8_encode:
  "\<forall>c \<in> set s. c < 128 \<Longrightarrow> utf8_encode s = Inr (map of_nat s)"
  by (induction s) (simp_all add: utf8_encode_char_def)

lemma ascii_utf8_decode_nat: "\<forall>c \<in> set s. c < 128 \<Longrightarrow> utf8_decode_nat s = Inr s"
  by (induction s) simp_all

lemma ascii_utf8_decode:
  "\<forall>c \<in> set s. c < 128 \<Longrightarrow> utf8_decode (map of_nat s) = Inr s"
proof -
  assume a: "\<forall>c \<in> set s. c < 128"
  then have "map unat (map of_nat s :: byte list) = s"
    by (induction s) (simp_all add: unat_of_nat)
  with a show ?thesis by (simp add: utf8_decode_def ascii_utf8_decode_nat)
qed

section \<open>The encoder succeeds on every text that is not empty\<close>

lemma update_new_key: "k \<notin> fst ` set d \<Longrightarrow> AList.update k v d = d @ [(k, v)]"
  by (induction d) auto

lemma fold_update_new_keys:
  "distinct (map f cs) \<Longrightarrow> f ` set cs \<inter> fst ` set d = {} \<Longrightarrow>
     fold (\<lambda>ck. AList.update (f ck) (g ck)) cs d = d @ map (\<lambda>ck. (f ck, g ck)) cs"
proof (induction cs arbitrary: d)
  case Nil
  then show ?case by simp
next
  case (Cons a cs)
  from Cons.prems have new: "f a \<notin> fst ` set d" by auto
  from Cons.prems have "distinct (map f cs)" "f ` set cs \<inter> fst ` set (d @ [(f a, g a)]) = {}"
    by auto
  from Cons.IH [OF this] new show ?case by (simp add: update_new_key)
qed

lemma map_node_distinct:
  assumes "distinct (leaf_chars t)"
  shows "map_node (Some t) [] ([], []) =
           (leaf_codes (Some t) [], map (\<lambda>ck. (snd ck, fst ck)) (leaf_codes (Some t) []))"
proof -
  let ?cs = "leaf_codes (Some t) []"
  have "distinct (map snd ?cs)" using leaf_codes_prefix_free by blast
  then have "fold (\<lambda>ck. AList.update (snd ck) (fst ck)) ?cs [] = map (\<lambda>ck. (snd ck, fst ck)) ?cs"
    using fold_update_new_keys [of snd ?cs "[]" fst] by simp
  moreover from assms have "fold (\<lambda>ck. AList.update (fst ck) (snd ck)) ?cs [] = ?cs"
    using fold_update_new_keys [of fst ?cs "[]" snd] by (simp add: leaf_chars_def)
  ultimately show ?thesis by (simp add: map_node_fold)
qed

lemma leaf_chars_make_stack: "concat (map leaf_chars (make_stack fr)) = map fst fr"
  by (induction fr) (auto simp: make_stack_def leaf_chars_def)

lemma length_make_stack [simp]: "length (make_stack fr) = length fr"
  by (simp add: make_stack_def)

lemma length_sorted_reverse [simp]: "length (sorted_reverse fr) = length fr"
  by (simp add: sorted_reverse_def)

lemma length_build_frequency: "length (build_frequency s) = length (first_occurrences s)"
  using keys_build_frequency [of s] by (metis length_map)

lemma build_frequency_nonempty: "s \<noteq> [] \<Longrightarrow> build_frequency s \<noteq> []"
  using length_build_frequency [of s] by (cases s) auto

lemma huffman_root_props:
  assumes "s \<noteq> []"
  shows "build_huffman_tree (make_stack (sorted_reverse (build_frequency s))) = [huffman_root s]"
    and "mset (leaf_chars (huffman_root s)) = mset (first_occurrences s)"
proof -
  let ?fr = "sorted_reverse (build_frequency s)"
  let ?stack = "make_stack ?fr"
  from assms have "?stack \<noteq> []" using build_frequency_nonempty [of s]
    by (metis length_0_conv length_make_stack length_sorted_reverse)
  then obtain n where "length ?stack = Suc n" by (cases ?stack) auto
  from build_huffman_tree_result [OF this] obtain root where
    r: "build_huffman_tree ?stack = [root]" "freq root = sum_list (map freq ?stack)"
       "mset (leaf_chars root) = mset (concat (map leaf_chars ?stack))" by blast
  from r(1) have hr: "huffman_root s = root" by (simp add: huffman_root_def)
  with r(1) show "build_huffman_tree ?stack = [huffman_root s]" by simp
  have "mset (map fst ?fr) = mset (map fst (build_frequency s))"
    by (metis mset_map mset_sorted_reverse)
  with r(3) hr show "mset (leaf_chars (huffman_root s)) = mset (first_occurrences s)"
    by (simp add: leaf_chars_make_stack keys_build_frequency)
qed

lemma distinct_leaf_chars_root: "s \<noteq> [] \<Longrightarrow> distinct (leaf_chars (huffman_root s))"
  using huffman_root_props(2) [of s] distinct_first_occurrences [of s]
  by (metis mset_eq_imp_distinct_iff)

lemma set_leaf_chars_root: "s \<noteq> [] \<Longrightarrow> set (leaf_chars (huffman_root s)) = set s"
  using huffman_root_props(2) [of s] set_first_occurrences [of s]
  by (metis mset_eq_setD)

lemma code_table_eq:
  "s \<noteq> [] \<Longrightarrow> code_table s =
     (leaf_codes (Some (huffman_root s)) [],
      map (\<lambda>ck. (snd ck, fst ck)) (leaf_codes (Some (huffman_root s)) []))"
  unfolding code_table_def by (rule map_node_distinct) (rule distinct_leaf_chars_root)

lemma create_mapping_text:
  "s \<noteq> [] \<Longrightarrow>
     create_mapping (build_huffman_tree (make_stack (sorted_reverse (build_frequency s)))) =
       Inr (code_table s)"
  by (simp add: huffman_root_props(1) create_mapping_def code_table_def)

lemma encode_text_total:
  "set s \<subseteq> fst ` set md \<Longrightarrow>
     encode_text s md = Inr (concat (map (\<lambda>c. the (map_of md c)) s))"
proof (induction s)
  case Nil
  then show ?case by simp
next
  case (Cons c s)
  then have "c \<in> fst ` set md" by simp
  then obtain k where "map_of md c = Some k"
    by (metis domD dom_map_of_conv_image_fst)
  with Cons show ?case by simp
qed

lemma keys_code_table: "s \<noteq> [] \<Longrightarrow> fst ` set (fst (code_table s)) = set s"
  using set_leaf_chars_root [of s] by (simp add: code_table_eq leaf_chars_def)

lemma hex_digit_ascii: "d < 16 \<Longrightarrow> hex_digit d < 128"
  by (simp add: hex_digit_def)

lemma hex4_ascii: "\<forall>c \<in> set (hex4 n). c < 128"
  by (simp add: hex4_def hex_digit_ascii)

lemma json_escape_char_ascii: "\<forall>x \<in> set (json_escape_char c). x < 128"
  using hex4_ascii by (auto simp: json_escape_char_def ascii_def Let_def)

lemma json_string_ascii: "\<forall>x \<in> set (json_string s). x < 128"
  using json_escape_char_ascii by (auto simp: json_string_def)

lemma json_items_ascii: "\<forall>x \<in> set (json_items d). x < 128"
  using json_string_ascii
  by (induction d rule: json_items.induct) (auto simp: json_item_def ascii_def)

lemma json_dumps_ascii: "\<forall>x \<in> set (json_dumps d). x < 128"
  using json_items_ascii by (auto simp: json_dumps_def ascii_def)

lemma encode_mapping_total:
  "encode_mapping d = Inr (bytes_bin (map of_nat (json_dumps d)))"
  by (simp add: encode_mapping_def ascii_utf8_encode [OF json_dumps_ascii])

lemma compress_bits_total:
  assumes "s \<noteq> []"
  shows "compress_bits s =
    Inr (pad_encoded_text_tree (encode_text_tree
      (concat (map (\<lambda>c. the (map_of (fst (code_table s)) c)) s))
      (bytes_bin (map of_nat (json_dumps (snd (code_table s)))))))"
proof -
  obtain md rd where ct: "code_table s = (md, rd)" by (cases "code_table s")
  have "set s \<subseteq> fst ` set md" using keys_code_table [OF assms] ct by simp
  then have "encode_text s md = Inr (concat (map (\<lambda>c. the (map_of md c)) s))"
    by (rule encode_text_total)
  then show ?thesis
    by (simp add: compress_bits_def create_mapping_text [OF assms] encode_mapping_total ct)
qed

section \<open>Empty input and determinism\<close>

lemma compress_bits_IndexError: "compress_bits s = Inl IndexError \<longleftrightarrow> s = []"
proof (cases "s = []")
  case True
  then show ?thesis by (simp add: compress_bits_Nil)
next
  case False
  from compress_bits_total [OF this] False show ?thesis by simp
qed

lemma compress_IndexError: "compress file_text = Inl IndexError \<longleftrightarrow> rstrip file_text = []"
proof (cases "rstrip file_text = []")
  case True
  then show ?thesis by (simp add: compress_def compress_bits_Nil)
next
  case False
  from compress_bits_total [OF this] False show ?thesis by (simp add: compress_def)
qed

text \<open>
  Claim C4, as the code has it. The code has no check for an empty input and no error
  of its own for it: compressing an empty text, or a text that is empty once its
  trailing whitespace is stripped, fails with Python's built-in \<open>IndexError\<close>, raised
  by \<open>self.tree.pop()\<close> in \<open>create_mapping\<close> on the empty list that
  \<open>build_huffman_tree\<close> returns. \<open>compress\<close> fails in this way for exactly these
  texts, and a failing call returns no buffer.
\<close>

theorem empty_input_rejected:
  "(compress_bits s = Inl IndexError \<longleftrightarrow> s = [])
   \<and> (compress file_text = Inl IndexError \<longleftrightarrow> rstrip file_text = [])"
  using compress_bits_IndexError compress_IndexError by blast

theorem empty_input_rejected_witness:
  "compress_bits [] = Inl IndexError
   \<and> ascii ''a'' \<noteq> [] \<and> compress_bits (ascii ''a'') \<noteq> Inl IndexError
   \<and> rstrip (ascii '' '') = [] \<and> compress (ascii '' '') = Inl IndexError
   \<and> rstrip (ascii ''a'') \<noteq> [] \<and> compress (ascii ''a'') \<noteq> Inl IndexError"
proof -
  note th1 = empty_input_rejected [THEN conjunct1]
  note th2 = empty_input_rejected [THEN conjunct2]
  have 1: "compress_bits [] = Inl IndexError" using th1 [of "[]"] by simp
  have 2: "ascii ''a'' \<noteq> []" by (simp add: ascii_def)
  have 3: "compress_bits (ascii ''a'') \<noteq> Inl IndexError" using th1 [of "ascii ''a''"] 2 by simp
  have 4: "rstrip (ascii '' '') = []" by (simp add: rstrip_def ascii_def py_isspace_def)
  have 5: "compress (ascii '' '') = Inl IndexError" using th2 [of "ascii '' ''"] 4 by simp
  have 6: "rstrip (ascii ''a'') \<noteq> []" by (simp add: rstrip_def ascii_def py_isspace_def)
  have 7: "compress (ascii ''a'') \<noteq> Inl IndexError" using th2 [of "ascii ''a''"] 6 by simp
  show ?thesis by (intro conjI 1 2 3 4 5 6 7)
qed

text \<open>
  The claim as stated fails: the failure on the empty text is the \<open>IndexError\<close> of a
  list operation, not an error kind of the program for an empty input.
\<close>

theorem empty_input_counterexample:
  "compress [] = Inl IndexError \<and> compress_bits [] = Inl IndexError"
  by (simp add: compress_def compress_bits_Nil)

text \<open>
  Claim C8. The compressed buffer is a fixed function of the text: nothing in the
  pipeline depends on anything else. The frequency table lists the symbols in the order
  of their first occurrence, each with its number of occurrences; sorting puts the
  counts in descending order and keeps the symbols of equal count in the order of the
  table; the merge loop turns the sorted leaves into one root; the two dicts list the
  leaves of that root in the order of the traversal, and \<open>json.dumps\<close> writes the
  reverse dict in that order; for every text that is not empty after stripping, every
  stage succeeds and the buffer is the padded frame of the concatenated codes and the
  serialized table.
\<close>

theorem determinism:
  "map fst (build_frequency s) = first_occurrences s
   \<and> map snd (build_frequency s) = map (count_list s) (first_occurrences s)
   \<and> sorted_wrt (\<lambda>x y. snd y \<le> snd x) (sorted_reverse (build_frequency s))
   \<and> filter (\<lambda>kv. snd kv = n) (sorted_reverse (build_frequency s)) =
       filter (\<lambda>kv. snd kv = n) (build_frequency s)
   \<and> (s \<noteq> [] \<longrightarrow>
        build_huffman_tree (make_stack (sorted_reverse (build_frequency s))) = [huffman_root s]
        \<and> code_table s =
            (leaf_codes (Some (huffman_root s)) [],
             map (\<lambda>ck. (snd ck, fst ck)) (leaf_codes (Some (huffman_root s)) []))
        \<and> compress_bits s =
            Inr (pad_encoded_text_tree (encode_text_tree
              (concat (map (\<lambda>c. the (map_of (fst (code_table s)) c)) s))
              (bytes_bin (map of_nat (json_dumps (snd (code_table s))))))))
   \<and> (rstrip file_text = s \<and> s \<noteq> [] \<longrightarrow>
        compress file_text =
          Inr (bits_tobytes (pad_encoded_text_tree (encode_text_tree
            (concat (map (\<lambda>c. the (map_of (fst (code_table s)) c)) s))
            (bytes_bin (map of_nat (json_dumps (snd (code_table s)))))))))"
proof -
  have "compress file_text =
          Inr (bits_tobytes (pad_encoded_text_tree (encode_text_tree
            (concat (map (\<lambda>c. the (map_of (fst (code_table s)) c)) s))
            (bytes_bin (map of_nat (json_dumps (snd (code_table s))))))))"
    if "rstrip file_text = s" "s \<noteq> []"
    using that compress_bits_total [of s] by (simp add: compress_def)
  then show ?thesis
    using keys_build_frequency [of s] values_build_frequency [of s]
      sorted_desc_sorted_reverse [of "build_frequency s"]
      sorted_reverse_stable [of n "build_frequency s"]
      huffman_root_props(1) [of s] code_table_eq [of s] compress_bits_total [of s]
    by blast
qed

theorem determinism_witness:
  "ascii ''abracadabra'' \<noteq> []
   \<and> rstrip (ascii ''abracadabra'') = ascii ''abracadabra''
   \<and> build_huffman_tree (make_stack (sorted_reverse (build_frequency (ascii ''abracadabra'')))) =
       [huffman_root (ascii ''abracadabra'')]
   \<and> compress (ascii ''abracadabra'') =
       Inr (bits_tobytes (pad_encoded_text_tree (encode_text_tree
            (concat (map (\<lambda>c. the (map_of (fst (code_table (ascii ''abracadabra''))) c))
               (ascii ''abracadabra'')))
            (bytes_bin (map of_nat (json_dumps (snd (code_table (ascii ''abracadabra''))))))))) 
   \<and> sorted_reverse (build_frequency (ascii ''abracadabra'')) =
       [(97, 5), (98, 2), (114, 2), (99, 1), (100, 1)]
   \<and> snd (code_table (ascii ''abracadabra'')) =
       [(ascii ''00'', 114), (ascii ''01'', 98), (ascii ''10'', 97), (ascii ''110'', 100),
        (ascii ''111'', 99)]"
proof -
  let ?s = "ascii ''abracadabra''"
  have 1: "?s \<noteq> []" by (simp add: ascii_def)
  have 2: "rstrip ?s = ?s" by code_simp
  note th = determinism [of ?s 2 ?s]
  note th5 = th [THEN conjunct2, THEN conjunct2, THEN conjunct2, THEN conjunct2]
  have 3: "build_huffman_tree (make_stack (sorted_reverse (build_frequency ?s))) = [huffman_root ?s]"
    using th5 [THEN conjunct1, THEN mp, OF 1] by (rule conjunct1)
  have 4: "compress ?s =
       Inr (bits_tobytes (pad_encoded_text_tree (encode_text_tree
            (concat (map (\<lambda>c. the (map_of (fst (code_table ?s)) c)) ?s))
            (bytes_bin (map of_nat (json_dumps (snd (code_table ?s))))))))"
    using 1 2 by (intro th5 [THEN conjunct2, THEN mp] conjI)
  have 5: "sorted_reverse (build_frequency ?s) = [(97, 5), (98, 2), (114, 2), (99, 1), (100, 1)]"
    by code_simp
  have 6: "snd (code_table ?s) =
       [(ascii ''00'', 114), (ascii ''01'', 98), (ascii ''10'', 97), (ascii ''110'', 100),
        (ascii ''111'', 99)]"
    by code_simp
  show ?thesis by (intro conjI 1 2 3 4 5 6)
qed

section \<open>Reading back what \<open>json.dumps\<close> wrote\<close>

lemma hex_value_hex_digit: "d < 16 \<Longrightarrow> hex_value (hex_digit d) = Some d"
  by (auto simp: hex_value_def hex_digit_def)

lemma hex_digits_value:
  "n < 65536 \<Longrightarrow>
     (n div 4096 mod 16) * 4096 + (n div 256 mod 16) * 256 + (n div 16 mod 16) * 16 + n mod 16 = (n::nat)"
proof -
  assume n: "n < 65536"
  define q1 r0 where "q1 = n div 16" and "r0 = n mod 16"
  define q2 r1 where "q2 = q1 div 16" and "r1 = q1 mod 16"
  define q3 r2 where "q3 = q2 div 16" and "r2 = q2 mod 16"
  have 1: "n = q1 * 16 + r0" by (simp add: q1_def r0_def)
  have 2: "q1 = q2 * 16 + r1" by (simp add: q2_def r1_def)
  have 3: "q2 = q3 * 16 + r2" by (simp add: q3_def r2_def)
  have q2: "q2 = n div 256" by (simp add: q2_def q1_def div_mult2_eq [symmetric])
  have q3: "q3 = n div 4096" by (simp add: q3_def q2 div_mult2_eq [symmetric])
  from n have "n div 4096 < 16" by simp
  then have m: "n div 4096 mod 16 = q3" by (simp add: q3)
  have "q3 * 4096 + r2 * 256 + r1 * 16 + r0 = n"
    by (subst 1, subst 2, subst 3) simp
  then show ?thesis
    by (simp add: m) (simp add: r2_def r1_def r0_def q1_def q2 [symmetric])
qed

lemma decode_uXXXX_hex4: "n < 65536 \<Longrightarrow> decode_uXXXX (hex4 n @ r) = Some n"
  using hex_digits_value [of n]
  by (simp add: decode_uXXXX_def hex4_def hex_value_hex_digit)

lemma length_hex4 [simp]: "length (hex4 n) = 4"
  by (simp add: hex4_def)

lemma scanstring_quote [simp]: "scanstring (34 # s) = Inr ([], s)"
  by (simp add: scanstring.simps)

lemma scanstring_plain:
  "32 \<le> c \<Longrightarrow> c \<noteq> 34 \<Longrightarrow> c \<noteq> 92 \<Longrightarrow> scanstring (c # s) = cons_char c (scanstring s)"
  by (simp add: scanstring.simps)

lemma scanstring_bits:
  "is_bits k \<Longrightarrow> scanstring (k @ 34 # s) = Inr (k, s)"
  by (induction k) (auto simp: scanstring_plain cons_char_def)

lemma scanstring_short_escape:
  "backslash e = Some ch \<Longrightarrow> e \<noteq> 117 \<Longrightarrow> scanstring (92 # e # s) = cons_char ch (scanstring s)"
  by (simp add: scanstring.simps)

lemma scanstring_u_single:
  assumes "n < 65536"
  shows "scanstring (92 # 117 # hex4 n @ 34 # s) = Inr ([n], s)"
proof -
  have "decode_uXXXX (hex4 n @ 34 # s) = Some n" using assms by (rule decode_uXXXX_hex4)
  then show ?thesis by (simp add: scanstring.simps cons_char_def)
qed

lemma scanstring_u_pair:
  assumes "55296 \<le> h" "h \<le> 56319" "56320 \<le> l" "l \<le> 57343"
  shows "scanstring (92 # 117 # hex4 h @ 92 # 117 # hex4 l @ 34 # s) =
           Inr ([65536 + ((h - 55296) * 1024 + (l - 56320))], s)"
proof -
  have "decode_uXXXX (hex4 h @ 92 # 117 # hex4 l @ 34 # s) = Some h"
    using assms by (intro decode_uXXXX_hex4) simp
  moreover have "decode_uXXXX (hex4 l @ 34 # s) = Some l"
    using assms by (intro decode_uXXXX_hex4) simp
  ultimately show ?thesis using assms
    by (simp add: scanstring.simps cons_char_def)
qed

lemma scanstring_escape_char:
  assumes "c < 1114112"
  shows "scanstring (json_escape_char c @ 34 # s) = Inr ([c], s)"
proof -
  consider "c = 34 \<or> c = 92 \<or> c = 8 \<or> c = 12 \<or> c = 10 \<or> c = 13 \<or> c = 9"
    | "c \<noteq> 34" "c \<noteq> 92" "32 \<le> c" "c \<le> 126"
    | "c \<noteq> 8" "c \<noteq> 12" "c \<noteq> 10" "c \<noteq> 13" "c \<noteq> 9" "c < 32 \<or> 126 < c" "c < 65536"
    | "65536 \<le> c"
    by linarith
  then show ?thesis
  proof cases
    case 1
    then show ?thesis
      by (auto simp: json_escape_char_def ascii_def scanstring_short_escape backslash_def cons_char_def)
  next
    case 2
    then show ?thesis
      by (simp add: json_escape_char_def scanstring_plain cons_char_def)
  next
    case 3
    then have "json_escape_char c = 92 # 117 # hex4 c"
      by (auto simp: json_escape_char_def ascii_def)
    with 3 show ?thesis by (simp add: scanstring_u_single)
  next
    case 4
    let ?n = "c - 65536"
    let ?h = "55296 + (?n div 1024) mod 1024" and ?l = "56320 + ?n mod 1024"
    from 4 have "json_escape_char c = 92 # 117 # hex4 ?h @ 92 # 117 # hex4 ?l"
      by (simp add: json_escape_char_def ascii_def Let_def)
    moreover from assms have "?n div 1024 < 1024" by simp
    then have "65536 + ((?h - 55296) * 1024 + (?l - 56320)) = c" using 4 by simp
    ultimately show ?thesis
      using scanstring_u_pair [of ?h ?l s] by simp
  qed
qed

section \<open>Reading back the serialized table\<close>

lemma json_string_bits: "is_bits k \<Longrightarrow> json_string k = 34 # k @ [34]"
proof -
  assume "is_bits k"
  then have "concat (map json_escape_char k) = k"
    by (induction k) (auto simp: json_escape_char_def)
  then show ?thesis by (simp add: json_string_def)
qed

lemma json_item_eq:
  "is_bits k \<Longrightarrow>
     json_item (k, c) = 34 # k @ 34 # 58 # 32 # 34 # json_escape_char c @ [34]"
  by (simp add: json_item_def json_string_bits) (simp add: json_string_def ascii_def)

lemma skip_ws_simps [simp]:
  "skip_ws [] = []"
  "skip_ws (32 # s) = skip_ws s"
  "\<not> is_ws c \<Longrightarrow> skip_ws (c # s) = c # s"
  by (simp_all add: skip_ws_def is_ws_def)

lemma not_ws [simp]: "\<not> is_ws 58" "\<not> is_ws 34" "\<not> is_ws 125" "\<not> is_ws 44" "\<not> is_ws 123"
  by (simp_all add: is_ws_def)

lemma JSONObject_item:
  assumes "is_bits k" "c < 1114112"
  shows "JSONObject (Suc (Suc n)) (k @ 34 # 58 # 32 # 34 # json_escape_char c @ 34 # rest) pairs =
    (case skip_ws rest of
       d # r3 \<Rightarrow>
         if d = 125 then Inr (JObject (dict_of_pairs (pairs @ [(k, JString [c])])), r3)
         else if d \<noteq> 44 then Inl ValueError
         else
           (case skip_ws r3 of
              q # r4 \<Rightarrow>
                if q = 34 then JSONObject (Suc n) r4 (pairs @ [(k, JString [c])])
                else Inl ValueError
            | [] \<Rightarrow> Inl ValueError)
     | [] \<Rightarrow> Inl ValueError)"
proof -
  have 1: "scanstring (k @ 34 # 58 # 32 # 34 # json_escape_char c @ 34 # rest) =
             Inr (k, 58 # 32 # 34 # json_escape_char c @ 34 # rest)"
    using assms(1) by (rule scanstring_bits)
  have 2: "scan_once (Suc n) (34 # json_escape_char c @ 34 # rest) = Inr (JString [c], rest)"
    using scanstring_escape_char [OF assms(2), of rest] by simp
  show ?thesis
    by (simp only: JSONObject.simps 1 sum.case prod.case skip_ws_simps not_ws list.case
        simp_thms if_False if_True 2)
qed

lemma valid_table_Cons:
  "valid_table (kc # d) \<Longrightarrow> is_bits (fst kc) \<and> snd kc < 1114112 \<and> valid_table d"
  by (auto simp: valid_table_def)

lemma json_items_Cons2:
  "json_items (kc # kc' # d) = json_item kc @ 44 # 32 # json_items (kc' # d)"
  by (simp add: ascii_def)

lemma json_items_head:
  "valid_table (kc # d) \<Longrightarrow> \<exists>body. json_items (kc # d) = 34 # body"
proof -
  assume "valid_table (kc # d)"
  then have "is_bits (fst kc)" by (auto dest: valid_table_Cons)
  then have "\<exists>body. json_item kc = 34 # body"
    using json_item_eq [of "fst kc" "snd kc"] by simp
  then show ?thesis by (cases d) auto
qed

lemma JSONObject_items:
  "valid_table d \<Longrightarrow> d \<noteq> [] \<Longrightarrow> length d \<le> n \<Longrightarrow>
     JSONObject (Suc n) (tl (json_items d) @ 125 # rest) pairs =
       Inr (JObject (dict_of_pairs (pairs @ map (\<lambda>kc. (fst kc, JString [snd kc])) d)), rest)"
proof (induction d arbitrary: n pairs rule: json_items.induct)
  case 1
  then show ?case by simp
next
  case (2 kc)
  obtain k c where kc: "kc = (k, c)" by (cases kc)
  from 2 kc have v: "is_bits k" "c < 1114112" by (auto dest: valid_table_Cons)
  from 2 obtain m where n: "n = Suc m" by (cases n) auto
  show ?case
    using JSONObject_item [OF v, of m "125 # rest" pairs]
    by (simp add: kc n json_item_eq [OF v(1)])
next
  case (3 kc kc' d)
  obtain k c where kc: "kc = (k, c)" by (cases kc)
  from 3 kc have v: "is_bits k" "c < 1114112" and v': "valid_table (kc' # d)"
    by (auto dest: valid_table_Cons)
  from 3 obtain m where n: "n = Suc m" and m: "length (kc' # d) \<le> m" by (cases n) auto
  from json_items_head [OF v'] obtain body where b: "json_items (kc' # d) = 34 # body" by blast
  have IH: "JSONObject (Suc m) (body @ 125 # rest) (pairs @ [(k, JString [c])]) =
      Inr (JObject (dict_of_pairs ((pairs @ [(k, JString [c])]) @
             map (\<lambda>kc. (fst kc, JString [snd kc])) (kc' # d))), rest)"
    using "3.IH" [OF v' _ m, of "pairs @ [(k, JString [c])]"] b by simp
  have "tl (json_items (kc # kc' # d)) @ 125 # rest =
          k @ 34 # 58 # 32 # 34 # json_escape_char c @ 34 # (44 # 32 # 34 # body @ 125 # rest)"
    by (simp add: ascii_def kc json_item_eq [OF v(1)] b)
  then show ?case
    using JSONObject_item [OF v, of m "44 # 32 # 34 # body @ 125 # rest" pairs] IH
    by (simp add: kc n)
qed

lemma dict_of_pairs_distinct: "distinct (map fst ps) \<Longrightarrow> dict_of_pairs ps = ps"
  using fold_update_new_keys [of fst ps "[]" snd] by (simp add: dict_of_pairs_def)

lemma length_json_items: "valid_table d \<Longrightarrow> length d \<le> length (json_items d)"
proof (induction d rule: json_items.induct)
  case 1
  then show ?case by simp
next
  case (2 kc)
  then show ?case using json_items_head [of kc "[]"] by auto
next
  case (3 kc kc' d)
  then have "valid_table (kc' # d)" by (auto dest: valid_table_Cons)
  with 3 show ?case by (simp add: ascii_def)
qed

lemma scan_once_json_dumps:
  assumes "valid_table d" "d \<noteq> []" "length d \<le> n"
  shows "scan_once (Suc (Suc n)) (json_dumps d @ rest) = Inr (table_value d, rest)"
proof -
  from assms obtain kc d' where d: "d = kc # d'" by (cases d) auto
  with assms obtain body where b: "json_items d = 34 # body"
    using json_items_head by blast
  have s: "json_dumps d @ rest = 123 # 34 # body @ 125 # rest"
    by (simp add: json_dumps_def ascii_def b)
  from JSONObject_items [OF assms, of rest "[]"] b
  have "JSONObject (Suc n) (body @ 125 # rest) [] =
          Inr (JObject (dict_of_pairs (map (\<lambda>kc. (fst kc, JString [snd kc])) d)), rest)"
    by simp
  moreover have "distinct (map fst (map (\<lambda>kc. (fst kc, JString [snd kc])) d))"
    using assms by (simp add: valid_table_def comp_def)
  ultimately show ?thesis
    by (simp add: s dict_of_pairs_distinct table_value_def table_json_def comp_def case_prod_beta)
qed

lemma length_json_dumps: "valid_table d \<Longrightarrow> length d \<le> 2 * length (json_dumps d)"
  using length_json_items [of d] by (simp add: json_dumps_def)

lemma json_loads_json_dumps:
  assumes "valid_table d"
  shows "json_loads (json_dumps d) = Inr (table_value d)"
proof (cases "d = []")
  case True
  have "scan_once 6 [123, 125] = Inr (JObject [], [])" by code_simp
  with True show ?thesis
    by (simp add: json_loads_def json_dumps_def ascii_def table_value_def table_json_def
        del: scan_once.simps)
next
  case False
  have f: "2 * length (json_dumps d) + 2 = Suc (Suc (2 * length (json_dumps d)))" by simp
  have h: "take 1 (json_dumps d) \<noteq> [65279]" by (simp add: json_dumps_def ascii_def)
  have w: "skip_ws (json_dumps d) = json_dumps d" by (simp add: json_dumps_def ascii_def)
  from scan_once_json_dumps [OF assms False length_json_dumps [OF assms], of "[]"]
  show ?thesis unfolding json_loads_def f w using h by simp
qed

section \<open>Decoding a prefix-free code\<close>

lemma decode_bits_loop_code:
  assumes "map_of d (k1 @ k2) = Some v" "k2 \<noteq> []"
    and "\<And>p. prefix (k1 @ [hd k2]) p \<Longrightarrow> strict_prefix p (k1 @ k2) \<Longrightarrow> map_of d p = None"
  shows "decode_bits_loop (k2 @ rest) (table_json d) (decoded_text, k1) =
           decode_bits_loop rest (table_json d) (decoded_text @ v, [])"
  using assms
proof (induction k2 arbitrary: k1)
  case Nil
  then show ?case by simp
next
  case (Cons b k2)
  show ?case
  proof (cases "k2 = []")
    case True
    with Cons.prems(1) show ?thesis by (simp add: decode_bits_loop_table del: decode_bits_loop.simps)
  next
    case False
    have "strict_prefix (k1 @ [b]) (k1 @ b # k2)" using False by (simp add: strict_prefix_def)
    with Cons.prems(3) [of "k1 @ [b]"] have none: "map_of d (k1 @ [b]) = None" by simp
    have "decode_bits_loop (k2 @ rest) (table_json d) (decoded_text, k1 @ [b]) =
            decode_bits_loop rest (table_json d) (decoded_text @ v, [])"
    proof (rule Cons.IH)
      show "map_of d ((k1 @ [b]) @ k2) = Some v" using Cons.prems(1) by simp
      show "k2 \<noteq> []" by (rule False)
      fix p assume p: "prefix ((k1 @ [b]) @ [hd k2]) p" "strict_prefix p ((k1 @ [b]) @ k2)"
      from p(1) have "prefix (k1 @ [hd (b # k2)]) p"
        by (metis append.assoc append_prefixD list.sel(1))
      with p(2) show "map_of d p = None" using Cons.prems(3) [of p] by simp
    qed
    with none show ?thesis by (simp add: decode_bits_loop_table del: decode_bits_loop.simps)
  qed
qed

lemma decode_bits_loop_symbol:
  assumes "map_of d k = Some v" "k \<noteq> []"
    and "\<And>p. p \<in> fst ` set d \<Longrightarrow> prefix p k \<Longrightarrow> p = k"
  shows "decode_bits_loop (k @ rest) (table_json d) (decoded_text, []) =
           decode_bits_loop rest (table_json d) (decoded_text @ v, [])"
proof (rule decode_bits_loop_code [of d "[]" k v, simplified])
  show "map_of d k = Some v" by fact
  show "k \<noteq> []" by fact
  fix p assume "prefix [hd k] p" "strict_prefix p k"
  then have "p \<notin> fst ` set d" using assms(3) [of p] by (auto simp: strict_prefix_def)
  then show "map_of d p = None" by (simp add: map_of_eq_None_iff)
qed

lemma decode_bits_loop_text:
  assumes "\<And>c. c \<in> set s \<Longrightarrow>
             map_of d (code c) = Some [c] \<and> code c \<noteq> [] \<and>
             (\<forall>p \<in> fst ` set d. prefix p (code c) \<longrightarrow> p = code c)"
  shows "decode_bits_loop (concat (map code s) @ rest) (table_json d) (decoded_text, []) =
           decode_bits_loop rest (table_json d) (decoded_text @ s, [])"
  using assms
proof (induction s arbitrary: decoded_text)
  case Nil
  then show ?case by simp
next
  case (Cons c s)
  from Cons.prems [of c] have c: "map_of d (code c) = Some [c]" "code c \<noteq> []"
    "\<And>p. p \<in> fst ` set d \<Longrightarrow> prefix p (code c) \<Longrightarrow> p = code c" by auto
  have "decode_bits_loop (code c @ concat (map code s) @ rest) (table_json d) (decoded_text, []) =
        decode_bits_loop (concat (map code s) @ rest) (table_json d) (decoded_text @ [c], [])"
    using c by (rule decode_bits_loop_symbol)
  also have "\<dots> = decode_bits_loop rest (table_json d) ((decoded_text @ [c]) @ s, [])"
    using Cons.prems by (intro Cons.IH) simp
  finally show ?case by simp
qed

lemma decode_bits_text:
  assumes "\<And>c. c \<in> set s \<Longrightarrow>
             map_of d (code c) = Some [c] \<and> code c \<noteq> [] \<and>
             (\<forall>p \<in> fst ` set d. prefix p (code c) \<longrightarrow> p = code c)"
  shows "decode_bits (concat (map code s)) (table_json d) = Inr s"
  using decode_bits_loop_text [of s d code "[]" "[]", OF assms]
  by (simp add: decode_bits_def)


section \<open>Decompressing what the encoder wrote\<close>

lemma leaf_codes_bits:
  "is_bits p \<Longrightarrow> (c, k) \<in> set (leaf_codes t p) \<Longrightarrow> is_bits k"
  by (induction t p rule: leaf_codes.induct) (auto simp: ascii_def)

lemma is_bits_concat: "is_bits (concat xs) \<longleftrightarrow> (\<forall>x \<in> set xs. is_bits x)"
  by (induction xs) auto

lemma valid_table_code_table:
  assumes "s \<noteq> []" "\<forall>c \<in> set s. c < 1114112"
  shows "valid_table (snd (code_table s))"
proof -
  let ?cs = "leaf_codes (Some (huffman_root s)) []"
  have rd: "snd (code_table s) = map (\<lambda>ck. (snd ck, fst ck)) ?cs"
    using code_table_eq [OF assms(1)] by simp
  have d: "distinct (map snd ?cs)" using leaf_codes_prefix_free by blast
  have keys: "map fst (map (\<lambda>ck. (snd ck, fst ck)) ?cs) = map snd ?cs" by simp
  have "is_bits (snd ck) \<and> fst ck < 1114112" if "ck \<in> set ?cs" for ck
  proof -
    from that have "(fst ck, snd ck) \<in> set ?cs" by simp
    then have b: "is_bits (snd ck)"
      using leaf_codes_bits [of "[]" "fst ck" "snd ck" "Some (huffman_root s)"] by simp
    from that have "fst ck \<in> set (leaf_chars (huffman_root s))" by (simp add: leaf_chars_def)
    then have "fst ck \<in> set s" using set_leaf_chars_root [OF assms(1)] by simp
    with assms(2) b show ?thesis by simp
  qed
  then show ?thesis unfolding valid_table_def rd keys using d by simp
qed

lemma map_of_code_table:
  assumes "s \<noteq> []" "c \<in> set s"
  shows "(c, the (map_of (fst (code_table s)) c)) \<in> set (leaf_codes (Some (huffman_root s)) [])"
proof -
  let ?cs = "leaf_codes (Some (huffman_root s)) []"
  have md: "fst (code_table s) = ?cs" using code_table_eq [OF assms(1)] by simp
  have "c \<in> fst ` set ?cs" using keys_code_table [OF assms(1)] assms(2) md by simp
  then obtain k where "map_of ?cs c = Some k" by (metis map_of_eq_None_iff not_Some_eq)
  then show ?thesis unfolding md by (simp add: map_of_SomeD)
qed

lemma is_bits_encoded_text:
  assumes "s \<noteq> []"
  shows "is_bits (concat (map (\<lambda>c. the (map_of (fst (code_table s)) c)) s))"
  unfolding is_bits_concat
proof
  fix x assume "x \<in> set (map (\<lambda>c. the (map_of (fst (code_table s)) c)) s)"
  then obtain c where c: "c \<in> set s" "x = the (map_of (fst (code_table s)) c)" by auto
  from map_of_code_table [OF assms c(1)] show "is_bits x"
    unfolding c(2)
    using leaf_codes_bits [of "[]" c "the (map_of (fst (code_table s)) c)" "Some (huffman_root s)"]
    by simp
qed

lemma json_dumps_nonempty: "json_dumps d \<noteq> []"
  by (simp add: json_dumps_def ascii_def)

lemma decompress_frame:
  assumes "is_bits encoded_text" "bs \<noteq> []" "8 * length bs < 2 ^ 16"
  shows "decompress (bits_tobytes
           (pad_encoded_text_tree (encode_text_tree encoded_text (bytes_bin bs)))) =
         (case decode_mapping (bytes_bin bs) of
            Inl e \<Rightarrow> Inl e
          | Inr reverse_mapping_dict \<Rightarrow> decode_bits encoded_text reverse_mapping_dict)"
proof -
  let ?body = "encode_text_tree encoded_text (bytes_bin bs)"
  let ?padded = "pad_encoded_text_tree ?body"
  have bits_body: "is_bits ?body"
    using assms(1) by (simp add: encode_text_tree_def Let_def is_bits_format_bin)
  have bits: "is_bits ?padded"
    unfolding pad_encoded_text_tree_eq using bits_body by (simp add: is_bits_format_bin)
  obtain n where n: "length ?padded = 8 * n"
    using length_pad_mod [of ?body] by (auto simp: mod_eq_0_iff_dvd elim: dvdE)
  have again: "bytes_bin (bits_tobytes ?padded) = ?padded"
    using bits n by (rule bytes_bin_bits_tobytes)
  have ne: "bytes_bin bs \<noteq> []"
  proof
    assume "bytes_bin bs = []"
    then have "length (bytes_bin bs) = 0" by simp
    with assms(2) show False by simp
  qed
  have len: "length (bytes_bin bs) < 2 ^ 16" using assms(3) by simp
  have frame: "get_encoded_text_mapping ?body = Inr (encoded_text, bytes_bin bs)"
    using len ne by (rule get_encoded_text_mapping_frame)
  show ?thesis
    unfolding decompress_def Let_def again remove_padding_bits_pad
    by (simp add: frame)
qed

lemma decompress_compress_table:
  assumes "s \<noteq> []" "\<forall>c \<in> set s. c < 1114112"
    and "8 * length (json_dumps (snd (code_table s))) < 2 ^ 16"
  shows "decompress (bits_tobytes (pad_encoded_text_tree (encode_text_tree
            (concat (map (\<lambda>c. the (map_of (fst (code_table s)) c)) s))
            (bytes_bin (map of_nat (json_dumps (snd (code_table s)))))))) =
         decode_bits (concat (map (\<lambda>c. the (map_of (fst (code_table s)) c)) s))
           (table_value (snd (code_table s)))"
proof -
  let ?rd = "snd (code_table s)"
  let ?bs = "map of_nat (json_dumps ?rd) :: byte list"
  have ne: "?bs \<noteq> []" using json_dumps_nonempty [of ?rd] by simp
  have len: "8 * length ?bs < 2 ^ 16" using assms(3) by simp
  have "utf8_decode ?bs = Inr (json_dumps ?rd)"
    using json_dumps_ascii [of ?rd] by (rule ascii_utf8_decode)
  moreover have "json_loads (json_dumps ?rd) = Inr (table_value ?rd)"
    using valid_table_code_table [OF assms(1,2)] by (rule json_loads_json_dumps)
  ultimately have dm: "decode_mapping (bytes_bin ?bs) = Inr (table_value ?rd)"
    using decode_mapping_bytes_bin [OF ne] by simp
  show ?thesis
    using decompress_frame [OF is_bits_encoded_text [OF assms(1)] ne len] dm by simp
qed

lemma num_leaves_root: "s \<noteq> [] \<Longrightarrow> num_leaves (huffman_root s) = card (set s)"
proof -
  assume s: "s \<noteq> []"
  have "num_leaves (huffman_root s) = length (leaf_chars (huffman_root s))"
    by (simp add: num_leaves_def leaf_chars_def)
  also have "\<dots> = card (set (leaf_chars (huffman_root s)))"
    using distinct_leaf_chars_root [OF s] by (simp add: distinct_card)
  finally show ?thesis using set_leaf_chars_root [OF s] by simp
qed

lemma decode_bits_encoded_text:
  assumes "s \<noteq> []" "2 \<le> card (set s)"
  shows "decode_bits (concat (map (\<lambda>c. the (map_of (fst (code_table s)) c)) s))
           (table_value (snd (code_table s))) = Inr s"
proof -
  let ?cs = "leaf_codes (Some (huffman_root s)) []"
  let ?d = "map (\<lambda>ck. (snd ck, [fst ck])) ?cs"
  let ?code = "\<lambda>c. the (map_of (fst (code_table s)) c)"
  have rd: "snd (code_table s) = map (\<lambda>ck. (snd ck, fst ck)) ?cs"
    using code_table_eq [OF assms(1)] by simp
  have tv: "table_value (snd (code_table s)) = table_json ?d"
    unfolding rd table_value_def by (simp add: comp_def)
  have dist: "distinct (map fst ?d)"
    using leaf_codes_prefix_free [of "Some (huffman_root s)" "[]"] by (simp add: comp_def)
  have pf: "prefix_free (map snd ?cs)" using leaf_codes_prefix_free by blast
  have keys: "fst ` set ?d = set (map snd ?cs)" by force
  have leaves: "2 \<le> num_leaves (huffman_root s)"
    using assms(2) num_leaves_root [OF assms(1)] by simp
  have "decode_bits (concat (map ?code s)) (table_json ?d) = Inr s"
  proof (rule decode_bits_text)
    fix c assume c: "c \<in> set s"
    have mem: "(c, ?code c) \<in> set ?cs" using map_of_code_table [OF assms(1) c] .
    then have "(?code c, [c]) \<in> set ?d" by force
    with dist have m: "map_of ?d (?code c) = Some [c]" by (rule map_of_is_SomeI)
    have ne: "?code c \<noteq> []" using leaf_codes_root_internal [OF leaves mem] .
    have "?code c \<in> set (map snd ?cs)" using mem by force
    with pf have "\<forall>p \<in> set (map snd ?cs). prefix p (?code c) \<longrightarrow> p = ?code c"
      unfolding prefix_free_def by blast
    with m ne show "map_of ?d (?code c) = Some [c] \<and> ?code c \<noteq> [] \<and>
        (\<forall>p \<in> fst ` set ?d. prefix p (?code c) \<longrightarrow> p = ?code c)"
      unfolding keys by blast
  qed
  then show ?thesis unfolding tv .
qed

lemma compress_stripped:
  assumes "rstrip file_text = s" "s \<noteq> []"
  shows "compress file_text =
          Inr (bits_tobytes (pad_encoded_text_tree (encode_text_tree
            (concat (map (\<lambda>c. the (map_of (fst (code_table s)) c)) s))
            (bytes_bin (map of_nat (json_dumps (snd (code_table s))))))))"
  unfolding compress_def Let_def assms(1) compress_bits_total [OF assms(2)] by simp

lemma roundtrip_table:
  assumes "rstrip file_text = s" "s \<noteq> []" "\<forall>c \<in> set s. c < 1114112"
    and "8 * length (json_dumps (snd (code_table s))) < 2 ^ 16"
  shows "roundtrip file_text =
           decode_bits (concat (map (\<lambda>c. the (map_of (fst (code_table s)) c)) s))
             (table_value (snd (code_table s)))"
  unfolding roundtrip_def compress_stripped [OF assms(1,2)]
  using decompress_compress_table [OF assms(2,3,4)] by simp

lemma roundtrip_stripped:
  assumes "rstrip file_text = s" "2 \<le> card (set s)" "\<forall>c \<in> set s. c < 1114112"
    and "8 * length (json_dumps (snd (code_table s))) < 2 ^ 16"
  shows "roundtrip file_text = Inr s"
proof -
  from assms(2) have ne: "s \<noteq> []" by auto
  show ?thesis
    using roundtrip_table [OF assms(1) ne assms(3,4)] decode_bits_encoded_text [OF ne assms(2)]
    by simp
qed

end
